theory Spec2Isabelle
  imports Main
begin

section \<open>Python strings\<close>

text \<open>
  A Python \<open>str\<close> is a sequence of Unicode code points. A code point is a natural number
  and a string is a list of them, so \<open>length\<close> counts what \<open>len\<close> counts and the
  Lithuanian letters of the program (U+0117 in \<open>klas\<dots>\<close>, U+0161 in \<open>auk\<dots>tesnysis\<close>) are
  single characters. \<open>ascii\<close> turns an ASCII literal into such a string.
\<close>

type_synonym uchar = nat
type_synonym ustr = "uchar list"

definition ascii :: "string \<Rightarrow> ustr" where
  "ascii s = map of_char s"

text \<open>
  \<open>str.isspace\<close> of one character, which is also the class \<open>\s\<close> of a \<open>str\<close> pattern:
  the 29 code points CPython lists in \<open>_PyUnicode_IsWhitespace\<close>.
\<close>

definition isspace :: "uchar \<Rightarrow> bool" where
  "isspace c \<longleftrightarrow>
     (0x09 \<le> c \<and> c \<le> 0x0D) \<or> (0x1C \<le> c \<and> c \<le> 0x20) \<or> c = 0x85 \<or> c = 0xA0 \<or>
     c = 0x1680 \<or> (0x2000 \<le> c \<and> c \<le> 0x200A) \<or> c = 0x2028 \<or> c = 0x2029 \<or>
     c = 0x202F \<or> c = 0x205F \<or> c = 0x3000"

text \<open>\<open>s.strip(chars)\<close> removes from both ends the characters of a set; \<open>s.strip()\<close> the whitespace.\<close>

definition strip_by :: "(uchar \<Rightarrow> bool) \<Rightarrow> ustr \<Rightarrow> ustr" where
  "strip_by P s = rev (dropWhile P (rev (dropWhile P s)))"

definition strip :: "ustr \<Rightarrow> ustr" where
  "strip s = strip_by isspace s"

definition strip_chars :: "ustr \<Rightarrow> ustr \<Rightarrow> ustr" where
  "strip_chars chars s = strip_by (\<lambda>c. c \<in> set chars) s"

text \<open>\<open>s.startswith(p)\<close>, \<open>p in s\<close>, \<open>s.split(sep, 1)[1]\<close> for a one-character \<open>sep\<close> that
  occurs in \<open>s\<close>, and \<open>s.replace(old, new)\<close> for a one-character \<open>old\<close>.\<close>

definition startswith :: "ustr \<Rightarrow> ustr \<Rightarrow> bool" where
  "startswith s p \<longleftrightarrow> take (length p) s = p"

fun contains :: "ustr \<Rightarrow> ustr \<Rightarrow> bool" where
  "contains p [] = (p = [])"
| "contains p (c # cs) = (startswith (c # cs) p \<or> contains p cs)"

definition split1_after :: "uchar \<Rightarrow> ustr \<Rightarrow> ustr" where
  "split1_after sep s = tl (dropWhile (\<lambda>c. c \<noteq> sep) s)"

definition replace :: "uchar \<Rightarrow> ustr \<Rightarrow> ustr \<Rightarrow> ustr" where
  "replace old new s = concat (map (\<lambda>c. if c = old then new else [c]) s)"

text \<open>The decimal numeral of a natural number, as an f-string prints an \<open>int\<close>.\<close>

fun str_nat :: "nat \<Rightarrow> ustr" where
  "str_nat n = (if n < 10 then [48 + n] else str_nat (n div 10) @ [48 + n mod 10])"

declare str_nat.simps [simp del]

section \<open>The Unicode database\<close>

text \<open>
  The program reads CPython's Unicode tables through \<open>str.lower\<close>, the classes \<open>\w\<close> and
  \<open>\d\<close> and the flag \<open>(?i)\<close> of the module \<open>re\<close>, \<open>int\<close> and \<open>unicodedata\<close>. The tables
  are not part of the repository, so every function that needs one takes them as a
  parameter \<open>U\<close>:
  \<^item> \<open>str_lower U s\<close> is \<open>s.lower()\<close>;
  \<^item> \<open>re_ci U p c\<close> says that the literal \<open>p\<close> of a pattern compiled with \<open>(?i)\<close> matches
    the character \<open>c\<close>;
  \<^item> \<open>isalnum U c\<close> is \<open>str.isalnum\<close> (\<open>\w\<close> is that or an underscore), \<open>isdecimal U c\<close>
    is the class \<open>\d\<close>;
  \<^item> \<open>int_ok U s\<close> says that \<open>int(s)\<close> returns rather than raises;
  \<^item> \<open>nfd U s\<close> is \<open>unicodedata.normalize("NFD", s)\<close> and \<open>category_Mn U c\<close> says that
    \<open>unicodedata.category(c)\<close> is \<open>"Mn"\<close>.
\<close>

record unicode_db =
  str_lower :: "ustr \<Rightarrow> ustr"
  re_ci :: "uchar \<Rightarrow> uchar \<Rightarrow> bool"
  isalnum :: "uchar \<Rightarrow> bool"
  isdecimal :: "uchar \<Rightarrow> bool"
  int_ok :: "ustr \<Rightarrow> bool"
  nfd :: "ustr \<Rightarrow> ustr"
  category_Mn :: "uchar \<Rightarrow> bool"

definition isword :: "unicode_db \<Rightarrow> uchar \<Rightarrow> bool" where
  "isword U c \<longleftrightarrow> isalnum U c \<or> c = 95"

section \<open>Regular expressions\<close>

text \<open>
  The patterns of the program use literals and classes, sequence, alternation, greedy
  repetition, capturing groups and the anchors \<open>^\<close>, \<open>$\<close> and \<open>\b\<close>. The matcher follows
  the backtracking order of \<open>re\<close>: a match state is the character before the position
  (\<open>None\<close> at the start of the string), the text still to read and the groups captured so
  far, and \<open>rmatch U r st\<close> lists the states in which \<open>r\<close> can stop, in the order in which
  \<open>re\<close> tries them.
\<close>

datatype re =
    Lit "uchar \<Rightarrow> bool"
  | Eps
  | Bol
  | Eol
  | Wb
  | Seq re re
  | Alt re re
  | Star re
  | Grp re

type_synonym mstate = "uchar option \<times> ustr \<times> ustr list"

definition word_before :: "unicode_db \<Rightarrow> uchar option \<Rightarrow> bool" where
  "word_before U p = (case p of None \<Rightarrow> False | Some c \<Rightarrow> isword U c)"

definition word_after :: "unicode_db \<Rightarrow> ustr \<Rightarrow> bool" where
  "word_after U s = (case s of [] \<Rightarrow> False | c # _ \<Rightarrow> isword U c)"

text \<open>Greedy repetition: one more round first, as long as the round reads something; the
  number of rounds is bounded by the length of the text.\<close>

fun star_iter :: "(mstate \<Rightarrow> mstate list) \<Rightarrow> nat \<Rightarrow> mstate \<Rightarrow> mstate list" where
  "star_iter f 0 st = [st]"
| "star_iter f (Suc n) st =
     concat (map (star_iter f n)
       (filter (\<lambda>st'. length (fst (snd st')) < length (fst (snd st))) (f st))) @ [st]"

fun rmatch :: "unicode_db \<Rightarrow> re \<Rightarrow> mstate \<Rightarrow> mstate list" where
  "rmatch U (Lit P) (p, s, g) =
     (case s of [] \<Rightarrow> [] | c # cs \<Rightarrow> if P c then [(Some c, cs, g)] else [])"
| "rmatch U Eps st = [st]"
| "rmatch U Bol (p, s, g) = (if p = None then [(p, s, g)] else [])"
| "rmatch U Eol (p, s, g) = (if s = [] \<or> s = [10] then [(p, s, g)] else [])"
| "rmatch U Wb (p, s, g) = (if word_before U p \<noteq> word_after U s then [(p, s, g)] else [])"
| "rmatch U (Seq a b) st = concat (map (rmatch U b) (rmatch U a st))"
| "rmatch U (Alt a b) st = rmatch U a st @ rmatch U b st"
| "rmatch U (Star a) (p, s, g) = star_iter (rmatch U a) (length s) (p, s, g)"
| "rmatch U (Grp a) (p, s, g) =
     map (\<lambda>(p', s', g'). (p', s', g' @ [take (length s - length s') s])) (rmatch U a (p, s, g))"

text \<open>\<open>pattern.match(s)\<close> tries the start of the string only; \<open>pattern.search(s)\<close> tries
  every position from the left and returns the first match: its text and its groups.\<close>

definition re_match :: "unicode_db \<Rightarrow> re \<Rightarrow> ustr \<Rightarrow> bool" where
  "re_match U r s \<longleftrightarrow> rmatch U r (None, s, []) \<noteq> []"

fun re_search_from :: "unicode_db \<Rightarrow> re \<Rightarrow> uchar option \<Rightarrow> ustr \<Rightarrow> (ustr \<times> ustr list) option" where
  "re_search_from U r p [] =
     (case rmatch U r (p, [], []) of [] \<Rightarrow> None | (p', s', g) # _ \<Rightarrow> Some ([], g))"
| "re_search_from U r p (c # cs) =
     (case rmatch U r (p, c # cs, []) of
        [] \<Rightarrow> re_search_from U r (Some c) cs
      | (p', s', g) # _ \<Rightarrow> Some (take (length (c # cs) - length s') (c # cs), g))"

definition re_search :: "unicode_db \<Rightarrow> re \<Rightarrow> ustr \<Rightarrow> (ustr \<times> ustr list) option" where
  "re_search U r s = re_search_from U r None s"

text \<open>
  \<open>pattern.sub(repl, s)\<close> for a pattern that cannot match the empty string, which holds
  of the two patterns the program substitutes (each match reads two characters at least):
  the leftmost match is replaced and the scan goes on behind it.
\<close>

function re_sub_from :: "unicode_db \<Rightarrow> re \<Rightarrow> ustr \<Rightarrow> uchar option \<Rightarrow> ustr \<Rightarrow> ustr" where
  "re_sub_from U r repl p [] = []"
| "re_sub_from U r repl p (c # cs) =
     (case rmatch U r (p, c # cs, []) of
        [] \<Rightarrow> c # re_sub_from U r repl (Some c) cs
      | (p', s', g) # _ \<Rightarrow>
          if length s' < length (c # cs) then repl @ re_sub_from U r repl p' s'
          else c # re_sub_from U r repl (Some c) cs)"
  by pat_completeness auto
termination
  by (relation "measure (\<lambda>(U, r, repl, p, s). length s)") auto

definition re_sub :: "unicode_db \<Rightarrow> re \<Rightarrow> ustr \<Rightarrow> ustr \<Rightarrow> ustr" where
  "re_sub U r repl s = re_sub_from U r repl None s"

text \<open>The pieces patterns are written with.\<close>

definition lit :: "uchar \<Rightarrow> re" where
  "lit c = Lit (\<lambda>x. x = c)"

definition lits_ci :: "unicode_db \<Rightarrow> ustr \<Rightarrow> re" where
  "lits_ci U s = foldr (\<lambda>c r. Seq (Lit (re_ci U c)) r) s Eps"

definition class_ci :: "unicode_db \<Rightarrow> ustr \<Rightarrow> re" where
  "class_ci U cs = Lit (\<lambda>x. list_ex (\<lambda>c. re_ci U c x) cs)"

definition re_s :: re where
  "re_s = Lit isspace"

definition re_w :: "unicode_db \<Rightarrow> re" where
  "re_w U = Lit (isword U)"

definition re_d :: "unicode_db \<Rightarrow> re" where
  "re_d U = Lit (isdecimal U)"

definition Opt :: "re \<Rightarrow> re" where
  "Opt r = Alt r Eps"

section \<open>The patterns of the program\<close>

text \<open>\<^verbatim>\<open>ACH_LVL_COL_RE = re.compile(r"(?i)pasiek\w*\s*lyg\w*")\<close>\<close>

definition ACH_LVL_COL_RE :: "unicode_db \<Rightarrow> re" where
  "ACH_LVL_COL_RE U =
     Seq (lits_ci U (ascii ''pasiek'')) (Seq (Star (re_w U)) (Seq (Star re_s)
       (Seq (lits_ci U (ascii ''lyg'')) (Star (re_w U)))))"

text \<open>\<^verbatim>\<open>ACH_LVL_VAL_RE = re.compile(r"(?i)^(slenkstinis|patenkinamas|pagrindinis|auk.tesnysis)\b")\<close>,
  where the dot stands for the letter U+0161 of the source.\<close>

definition ACH_LVL_VAL_RE :: "unicode_db \<Rightarrow> re" where
  "ACH_LVL_VAL_RE U =
     Seq Bol (Seq (Grp (Alt (lits_ci U (ascii ''slenkstinis'')) (Alt (lits_ci U (ascii ''patenkinamas''))
       (Alt (lits_ci U (ascii ''pagrindinis'')) (lits_ci U (ascii ''auk'' @ [0x161] @ ascii ''tesnysis'')))))) Wb)"

text \<open>\<^verbatim>\<open>TAG_PR_IN_RE = re.compile(r"(?i)\b(?:PR|IN)\b")\<close>\<close>

definition TAG_PR_IN_RE :: "unicode_db \<Rightarrow> re" where
  "TAG_PR_IN_RE U = Seq Wb (Seq (Alt (lits_ci U (ascii ''PR'')) (lits_ci U (ascii ''IN''))) Wb)"

text \<open>\<^verbatim>\<open>EXTRA_SEP_RE = re.compile(r"\s*[(){}\[\]/|,;.-]\s*")\<close>, which the source
  comments as tidying the separators that are left when the tags have been deleted. The
  program compiles it and never applies it.\<close>

definition EXTRA_SEP_RE :: re where
  "EXTRA_SEP_RE = Seq (Star re_s) (Seq (Lit (\<lambda>c. c \<in> set (ascii ''(){}[]/|,;.-''))) (Star re_s))"

text \<open>\<^verbatim>\<open>r"\s{2,}"\<close>, the pattern of the two \<open>re.sub\<close> calls of \<open>clean_value_remove_tags\<close>.\<close>

definition WS2_RE :: re where
  "WS2_RE = Seq re_s (Seq re_s (Star re_s))"

text \<open>\<^verbatim>\<open>pat_years = re.compile(r"(20\d{2})\s*[D-]\s*(20\d{2})")\<close>, where \<open>D\<close> stands for the
  en dash U+2013 of the source.\<close>

definition year_re :: "unicode_db \<Rightarrow> re" where
  "year_re U = Grp (Seq (lit 50) (Seq (lit 48) (Seq (re_d U) (re_d U))))"

definition pat_years :: "unicode_db \<Rightarrow> re" where
  "pat_years U =
     Seq (year_re U) (Seq (Star re_s) (Seq (Lit (\<lambda>c. c = 0x2013 \<or> c = 0x2D))
       (Seq (Star re_s) (year_re U))))"

text \<open>\<^verbatim>\<open>FINAL_CLASS_RE = re.compile(r"(?i)^\s*IV\s*[A-Z...]?\s*$")\<close>, where the dots stand
  for the nine Lithuanian capitals U+0104, U+010C, U+0118, U+0116, U+012E, U+0160, U+0172,
  U+016A and U+017D of the source,
  and \<^verbatim>\<open>HAS_12_RE = re.compile(r"(?i)\b12\b")\<close>; the digits have no case, so \<open>(?i)\<close>
  leaves them plain literals.\<close>

definition class_letters :: ustr where
  "class_letters = [65 ..< 91] @ [0x104, 0x10C, 0x118, 0x116, 0x12E, 0x160, 0x172, 0x16A, 0x17D]"

definition FINAL_CLASS_RE :: "unicode_db \<Rightarrow> re" where
  "FINAL_CLASS_RE U =
     Seq Bol (Seq (Star re_s) (Seq (lits_ci U (ascii ''IV'')) (Seq (Star re_s)
       (Seq (Opt (class_ci U class_letters)) (Seq (Star re_s) Eol)))))"

definition HAS_12_RE :: re where
  "HAS_12_RE = Seq Wb (Seq (lit 49) (Seq (lit 50) Wb))"

section \<open>Cell values\<close>

text \<open>
  A cell of the sheet as \<open>pandas.read_excel\<close> delivers it: missing (\<open>NaN\<close>), a string, or
  another scalar (a number, a date, a truth value), of which the program only ever takes
  \<open>str(v)\<close>; \<open>Obj s\<close> is such a scalar with \<open>str(v) = s\<close>.
\<close>

datatype cell = NA | Str ustr | Obj ustr

fun notna :: "cell \<Rightarrow> bool" where
  "notna NA = False"
| "notna _ = True"

fun str_of :: "cell \<Rightarrow> ustr" where
  "str_of NA = ascii ''nan''"
| "str_of (Str s) = s"
| "str_of (Obj s) = s"

section \<open>Text normaliser and class-type classifier\<close>

definition is_final_class :: "unicode_db \<Rightarrow> cell \<Rightarrow> bool" where
  "is_final_class U klase =
     (case klase of
        Str s \<Rightarrow>
          (let k = strip s in
           if re_match U (FINAL_CLASS_RE U) k then True
           else if re_search U HAS_12_RE k \<noteq> None then True
           else False)
      | _ \<Rightarrow> False)"

definition strip_accents_lower :: "unicode_db \<Rightarrow> cell \<Rightarrow> ustr" where
  "strip_accents_lower U v =
     (case v of
        Str s \<Rightarrow>
          (let n = nfd U s;
               n = filter (\<lambda>ch. \<not> category_Mn U ch) n
           in strip (str_lower U n))
      | _ \<Rightarrow> [])"

definition clean_value_remove_tags :: "unicode_db \<Rightarrow> ustr \<Rightarrow> ustr" where
  "clean_value_remove_tags U val =
     (let s = strip val in
      if s = [] then s
      else
        let s = re_sub U (TAG_PR_IN_RE U) [] s;
            s = re_sub U WS2_RE [32] s;
            s = strip_chars (ascii '' ()[]{}-/|,;.'') s;
            s = strip (re_sub U WS2_RE [32] s)
        in s)"

section \<open>A concrete Unicode database\<close>

text \<open>
  \<open>lt_db\<close> agrees with CPython 3 on ASCII, on the eighteen Lithuanian letters with
  diacritics, on the letter e with acute accent (U+00C9 and U+00E9), on the combining marks
  U+0300 to U+036F and on the en dash; it is what the examples below are evaluated with,
  and they use no other characters. Each line of \<open>lt_upper\<close> is a capital, its small
  letter, and the base letter and the combining mark of the capital's decomposition.
\<close>

definition lt_upper :: "(uchar \<times> uchar \<times> uchar \<times> uchar) list" where
  "lt_upper = [(0x104, 0x105, 0x41, 0x328), (0x10C, 0x10D, 0x43, 0x30C), (0x118, 0x119, 0x45, 0x328),
     (0x116, 0x117, 0x45, 0x307), (0x12E, 0x12F, 0x49, 0x328), (0x160, 0x161, 0x53, 0x30C),
     (0x172, 0x173, 0x55, 0x328), (0x16A, 0x16B, 0x55, 0x304), (0x17D, 0x17E, 0x5A, 0x30C),
     (0xC9, 0xE9, 0x45, 0x301)]"

definition lt_lower1 :: "uchar \<Rightarrow> uchar" where
  "lt_lower1 c =
     (if 65 \<le> c \<and> c \<le> 90 then c + 32
      else case map_of (map (\<lambda>(u, l, b, m). (u, l)) lt_upper) c of Some l \<Rightarrow> l | None \<Rightarrow> c)"

definition lt_isalnum :: "uchar \<Rightarrow> bool" where
  "lt_isalnum c \<longleftrightarrow>
     (48 \<le> c \<and> c \<le> 57) \<or> (65 \<le> c \<and> c \<le> 90) \<or> (97 \<le> c \<and> c \<le> 122) \<or>
     list_ex (\<lambda>(u, l, b, m). c = u \<or> c = l) lt_upper"

definition lt_nfd1 :: "uchar \<Rightarrow> ustr" where
  "lt_nfd1 c =
     (case map_of (map (\<lambda>(u, l, b, m). (u, [b, m])) lt_upper @
                   map (\<lambda>(u, l, b, m). (l, [b + 32, m])) lt_upper) c of
        Some d \<Rightarrow> d | None \<Rightarrow> [c])"

text \<open>\<open>int\<close> of a string: whitespace around, a sign, and decimal digits in which single
  underscores may stand between two digits; CPython refuses a text of more than 4300
  digits (\<open>sys.int_info.default_max_str_digits\<close>), the leading zeros counted, the sign and
  the underscores not.\<close>

fun digits_us :: "bool \<Rightarrow> ustr \<Rightarrow> bool" where
  "digits_us after_digit [] = after_digit"
| "digits_us after_digit (c # cs) =
     (if 48 \<le> c \<and> c \<le> 57 then digits_us True cs
      else if c = 95 \<and> after_digit then cs \<noteq> [] \<and> hd cs \<noteq> 95 \<and> digits_us False cs
      else False)"

definition lt_int_ok :: "ustr \<Rightarrow> bool" where
  "lt_int_ok s =
     (let t = strip s;
          t = (case t of [] \<Rightarrow> [] | c # cs \<Rightarrow> if c = 43 \<or> c = 45 then cs else t)
      in digits_us False t \<and> length (filter (\<lambda>c. 48 \<le> c \<and> c \<le> 57) t) \<le> 4300)"

definition lt_db :: unicode_db where
  "lt_db = \<lparr> str_lower = map lt_lower1,
             re_ci = (\<lambda>p c. lt_lower1 c = lt_lower1 p),
             isalnum = lt_isalnum,
             isdecimal = (\<lambda>c. 48 \<le> c \<and> c \<le> 57),
             int_ok = lt_int_ok,
             nfd = (\<lambda>s. concat (map lt_nfd1 s)),
             category_Mn = (\<lambda>c. 0x300 \<le> c \<and> c \<le> 0x36F) \<rparr>"

section \<open>The raw grid and the metadata scanner\<close>

text \<open>
  What the program can raise: \<open>HeaderNotFound\<close> is the \<open>ValueError\<close> of
  \<open>parse_excel_to_df\<close>, \<open>IndexError\<close> the one of \<open>DataFrame.iat\<close>, \<open>KeyError\<close> the one of
  a column label that is absent, \<open>LengthMismatch\<close> the \<open>ValueError\<close> of assigning a list of
  labels of the wrong length, \<open>RenderError\<close> an exception of the PDF library.
  \<open>DuplicateLabel\<close> stands for a single label that names several columns where the
  program expects one column: \<open>data[col]\<close> and \<open>row[col]\<close> then hand back a frame or a
  series instead of a series or a scalar. In the loops the truth value of the test that
  follows is ambiguous and pandas raises \<open>ValueError\<close>; for the name column the outcome
  depends on the version of pandas, and the model stops there.
\<close>

datatype error =
  HeaderNotFound | IndexError | KeyError | LengthMismatch | DuplicateLabel | RenderError

text \<open>The frame \<open>df0 = pd.read_excel(..., header=None)\<close>: its shape and its cells.\<close>

record dataframe =
  nrows :: nat
  ncols :: nat
  cells :: "nat \<Rightarrow> nat \<Rightarrow> cell"

definition iat :: "dataframe \<Rightarrow> nat \<Rightarrow> nat \<Rightarrow> error + cell" where
  "iat df r c = (if r < nrows df \<and> c < ncols df then Inr (cells df r c) else Inl IndexError)"

definition of_rows :: "cell list list \<Rightarrow> dataframe" where
  "of_rows rows =
     \<lparr> nrows = length rows,
       ncols = (case rows of [] \<Rightarrow> 0 | r # _ \<Rightarrow> length r),
       cells = (\<lambda>r c. rows ! r ! c) \<rparr>"

text \<open>The two nested \<open>for\<close> loops over the first 12 rows and 12 columns visit the cells in
  this order.\<close>

definition window :: "dataframe \<Rightarrow> (nat \<times> nat) list" where
  "window df = concat (map (\<lambda>r. map (\<lambda>c. (r, c)) [0 ..< min 12 (ncols df)]) [0 ..< min 12 (nrows df)])"

definition school_class_step ::
  "unicode_db \<Rightarrow> dataframe \<Rightarrow> ustr \<times> ustr \<Rightarrow> nat \<times> nat \<Rightarrow> ustr \<times> ustr" where
  "school_class_step U df acc rc =
     (case (acc, rc) of ((mokykla, klase), (r, c)) \<Rightarrow>
        (case cells df r c of
           Str val \<Rightarrow>
             (let txt = strip val;
                  low = str_lower U txt;
                  mokykla = (if contains (ascii ''mokykla'') low \<and> 58 \<in> set txt
                             then strip (split1_after 58 txt) else mokykla);
                  klase = (if (contains (ascii ''klas'' @ [0x117]) low \<or> contains (ascii ''klase'') low)
                              \<and> 58 \<in> set txt
                           then strip (split1_after 58 txt) else klase)
              in (mokykla, klase))
         | _ \<Rightarrow> (mokykla, klase)))"

definition try_extract_school_and_class :: "unicode_db \<Rightarrow> dataframe \<Rightarrow> ustr \<times> ustr" where
  "try_extract_school_and_class U df_raw = foldl (school_class_step U df_raw) ([], []) (window df_raw)"

definition fmt_years :: "ustr list \<Rightarrow> ustr" where
  "fmt_years g = g ! 0 @ [0x2013] @ g ! 1"

fun year_loop :: "unicode_db \<Rightarrow> dataframe \<Rightarrow> (nat \<times> nat) list \<Rightarrow> ustr \<Rightarrow> ustr" where
  "year_loop U df [] candidate = candidate"
| "year_loop U df ((r, c) # rest) candidate =
     (case cells df r c of
        Str val \<Rightarrow>
          (let txt = strip val in
           case re_search U (pat_years U) txt of
             Some (m, g) \<Rightarrow> fmt_years g
           | None \<Rightarrow>
               if contains (ascii ''mokslo metai'') (str_lower U txt) then
                 (case re_search U (pat_years U) txt of
                    Some (m2, g2) \<Rightarrow> fmt_years g2
                  | None \<Rightarrow> year_loop U df rest txt)
               else year_loop U df rest candidate)
      | _ \<Rightarrow> year_loop U df rest candidate)"

definition try_extract_academic_year :: "unicode_db \<Rightarrow> dataframe \<Rightarrow> ustr" where
  "try_extract_academic_year U df_raw = year_loop U df_raw (window df_raw) []"

section \<open>Header locator\<close>

definition header_cells_match :: "unicode_db \<Rightarrow> cell \<Rightarrow> cell \<Rightarrow> bool" where
  "header_cells_match U c0 c1 =
     (let c0s = str_lower U (if notna c0 then strip (str_of c0) else []);
          c1s = str_lower U (if notna c1 then strip (str_of c1) else [])
      in startswith c0s (ascii ''eil'') \<and>
         (contains (ascii ''pavard'') c1s \<or> contains (ascii ''vard'') c1s))"

fun find_header_loop ::
  "unicode_db \<Rightarrow> dataframe \<Rightarrow> nat \<Rightarrow> nat \<Rightarrow> error + (nat \<times> nat) option" where
  "find_header_loop U df0 i 0 = Inr None"
| "find_header_loop U df0 i (Suc n) =
     (case iat df0 i 0 of
        Inl e \<Rightarrow> Inl e
      | Inr c0 \<Rightarrow>
          (case (if ncols df0 > 1 then iat df0 i 1 else Inr NA) of
             Inl e \<Rightarrow> Inl e
           | Inr c1 \<Rightarrow>
               if header_cells_match U c0 c1 then Inr (Some (i, i + 1))
               else find_header_loop U df0 (i + 1) n))"

definition find_header_rows :: "unicode_db \<Rightarrow> dataframe \<Rightarrow> error + (nat \<times> nat) option" where
  "find_header_rows U df0 = find_header_loop U df0 0 (min 40 (nrows df0))"

section \<open>Table builder\<close>

record table =
  columns :: "ustr list"
  body :: "cell list list"

record meta =
  meta_mokykla :: ustr
  meta_klase :: ustr
  meta_akadem_metai :: ustr

definition col_nr :: ustr where
  "col_nr = ascii ''Eil. Nr.''"

definition col_name :: ustr where
  "col_name = ascii ''Pavard'' @ [0x117] @ ascii '', vardas''"

definition subject_name :: "dataframe \<Rightarrow> nat \<Rightarrow> nat \<Rightarrow> error + ustr" where
  "subject_name df0 subjects_row j =
     (case iat df0 subjects_row j of
        Inl e \<Rightarrow> Inl e
      | Inr v \<Rightarrow>
          (let name = (if notna v then strip (str_of v) else [])
           in Inr (if name = [] then ascii ''Dalykas_'' @ str_nat (j - 1) else name)))"

fun columns_loop ::
  "dataframe \<Rightarrow> nat \<Rightarrow> nat list \<Rightarrow> ustr list \<Rightarrow> error + ustr list" where
  "columns_loop df0 subjects_row [] cols = Inr cols"
| "columns_loop df0 subjects_row (j # js) cols =
     (case subject_name df0 subjects_row j of
        Inl e \<Rightarrow> Inl e
      | Inr name \<Rightarrow> columns_loop df0 subjects_row js (cols @ [name]))"

definition build_columns :: "dataframe \<Rightarrow> nat \<Rightarrow> error + ustr list" where
  "build_columns df0 subjects_row =
     columns_loop df0 subjects_row [2 ..< ncols df0] [col_nr, col_name]"

function find_data_start :: "unicode_db \<Rightarrow> dataframe \<Rightarrow> nat \<Rightarrow> nat" where
  "find_data_start U df0 data_start =
     (if data_start < nrows df0 then
        (let v = cells df0 data_start 0 in
         if notna v \<and> int_ok U (strip (str_of v)) then data_start
         else find_data_start U df0 (data_start + 1))
      else data_start)"
  by pat_completeness auto
termination
  by (relation "measure (\<lambda>(U, df0, i). nrows df0 - i)") auto

declare find_data_start.simps [simp del]

definition iloc :: "dataframe \<Rightarrow> nat \<Rightarrow> nat \<Rightarrow> cell list list" where
  "iloc df0 start k =
     map (\<lambda>r. map (\<lambda>c. cells df0 r c) [0 ..< min k (ncols df0)]) [start ..< nrows df0]"

definition label_positions :: "table \<Rightarrow> ustr \<Rightarrow> nat list" where
  "label_positions T name = filter (\<lambda>i. columns T ! i = name) [0 ..< length (columns T)]"

definition label_position :: "table \<Rightarrow> ustr \<Rightarrow> error + nat" where
  "label_position T name =
     (case label_positions T name of [] \<Rightarrow> Inl KeyError | [i] \<Rightarrow> Inr i | _ \<Rightarrow> Inl DuplicateLabel)"

definition getitem :: "table \<Rightarrow> ustr \<Rightarrow> error + cell list" where
  "getitem T name =
     (case label_position T name of Inl e \<Rightarrow> Inl e | Inr i \<Rightarrow> Inr (map (\<lambda>row. row ! i) (body T)))"

text \<open>\<open>data[names]\<close> with a list of labels: for every label of the list in turn, all the
  columns that carry it, so a label that names two columns yields both; a label that
  names no column raises \<open>KeyError\<close>.\<close>

definition getitem_list :: "table \<Rightarrow> ustr list \<Rightarrow> error + table" where
  "getitem_list T names =
     (if list_ex (\<lambda>n. label_positions T n = []) names then Inl KeyError
      else
        (let js = concat (map (label_positions T) names)
         in Inr \<lparr> columns = map (\<lambda>j. columns T ! j) js,
                  body = map (\<lambda>row. map (\<lambda>j. row ! j) js) (body T) \<rparr>))"

definition getitem_mask :: "table \<Rightarrow> bool list \<Rightarrow> table" where
  "getitem_mask T keep = T \<lparr> body := map fst (filter snd (zip (body T) keep)) \<rparr>"

definition dropna_all :: "table \<Rightarrow> table" where
  "dropna_all T = T \<lparr> body := filter (\<lambda>row. list_ex notna row) (body T) \<rparr>"

fun keep_cols_loop :: "table \<Rightarrow> ustr list \<Rightarrow> ustr list \<Rightarrow> error + ustr list" where
  "keep_cols_loop data [] keep_cols = Inr keep_cols"
| "keep_cols_loop data (col # cols) keep_cols =
     (if col \<in> set keep_cols then keep_cols_loop data cols keep_cols
      else case getitem data col of
             Inl e \<Rightarrow> Inl e
           | Inr vs \<Rightarrow>
               if list_ex notna vs then keep_cols_loop data cols (keep_cols @ [col])
               else keep_cols_loop data cols keep_cols)"

definition parse_excel_to_df :: "unicode_db \<Rightarrow> dataframe \<Rightarrow> error + table \<times> meta" where
  "parse_excel_to_df U df0 =
     (let (mokykla, klase) = try_extract_school_and_class U df0;
          akadem_metai_auto = try_extract_academic_year U df0
      in case find_header_rows U df0 of
           Inl e \<Rightarrow> Inl e
         | Inr None \<Rightarrow> Inl HeaderNotFound
         | Inr (Some (header_row, subjects_row)) \<Rightarrow>
             (case build_columns df0 subjects_row of
                Inl e \<Rightarrow> Inl e
              | Inr cols \<Rightarrow>
                  (let data_start = find_data_start U df0 (subjects_row + 1);
                       rows = iloc df0 data_start (length cols)
                   in if min (length cols) (ncols df0) \<noteq> length cols then Inl LengthMismatch
                      else
                        (let data = \<lparr> columns = cols, body = rows \<rparr>;
                             data = dropna_all data
                         in case getitem data col_name of
                              Inl e \<Rightarrow> Inl e
                            | Inr names \<Rightarrow>
                                (let data = getitem_mask data (map notna names)
                                 in case keep_cols_loop data (columns data) [col_nr, col_name] of
                                      Inl e \<Rightarrow> Inl e
                                    | Inr keep_cols \<Rightarrow>
                                        (case getitem_list data keep_cols of
                                           Inl e \<Rightarrow> Inl e
                                         | Inr data \<Rightarrow>
                                             Inr (data, \<lparr> meta_mokykla = mokykla, meta_klase = klase,
                                                          meta_akadem_metai = akadem_metai_auto \<rparr>)))))))"

section \<open>The action: filters, value cleaner and archive\<close>

definition summary_name :: ustr where
  "summary_name = ascii ''Klas'' @ [0x117] @ ascii ''s pa'' @ [0x17E] @ ascii ''angumas''"

text \<open>The two filters of the action on the parsed table: the columns whose label matches
  \<open>ACH_LVL_COL_RE\<close> go, then the rows whose name normalises to the summary phrase.\<close>

definition student_table :: "unicode_db \<Rightarrow> table \<Rightarrow> error + table" where
  "student_table U df_students =
     (case getitem_list df_students
             (filter (\<lambda>c. re_search U (ACH_LVL_COL_RE U) c = None) (columns df_students)) of
        Inl e \<Rightarrow> Inl e
      | Inr df_students \<Rightarrow>
          (case getitem df_students col_name of
             Inl e \<Rightarrow> Inl e
           | Inr names \<Rightarrow>
               (let name_norm = map (\<lambda>v. strip_accents_lower U (Str (str_of v))) names
                in Inr (getitem_mask df_students
                     (map (\<lambda>n. n \<noteq> strip_accents_lower U (Str summary_name)) name_norm)))))"

text \<open>\<open>subjects[col] = sv\<close> on a dictionary kept in insertion order.\<close>

fun dict_set :: "(ustr \<times> ustr) list \<Rightarrow> ustr \<Rightarrow> ustr \<Rightarrow> (ustr \<times> ustr) list" where
  "dict_set [] k v = [(k, v)]"
| "dict_set ((k', v') # d) k v = (if k' = k then (k, v) # d else (k', v') # dict_set d k v)"

definition row_get :: "table \<Rightarrow> cell list \<Rightarrow> ustr \<Rightarrow> error + cell" where
  "row_get T row col = (case label_position T col of Inl e \<Rightarrow> Inl e | Inr i \<Rightarrow> Inr (row ! i))"

fun subjects_loop ::
  "unicode_db \<Rightarrow> table \<Rightarrow> cell list \<Rightarrow> ustr list \<Rightarrow> (ustr \<times> ustr) list \<Rightarrow> error + (ustr \<times> ustr) list" where
  "subjects_loop U T row [] subjects = Inr subjects"
| "subjects_loop U T row (col # cols) subjects =
     (if col = col_nr \<or> col = col_name then subjects_loop U T row cols subjects
      else case row_get T row col of
             Inl e \<Rightarrow> Inl e
           | Inr v \<Rightarrow>
               if \<not> notna v then subjects_loop U T row cols subjects
               else
                 (let sv = strip (str_of v) in
                  if sv = [] \<or> str_lower U sv = ascii ''nan'' then subjects_loop U T row cols subjects
                  else if re_search U (ACH_LVL_VAL_RE U) sv \<noteq> None
                    then subjects_loop U T row cols subjects
                  else
                    (let sv = clean_value_remove_tags U sv in
                     if sv = [] then subjects_loop U T row cols subjects
                     else subjects_loop U T row cols (dict_set subjects col sv))))"

text \<open>What \<open>make_student_pdf\<close> is called with. The function itself lays the page out with
  the PDF library and is a parameter \<open>render\<close> of the action; it returns the bytes of the
  document or raises.\<close>

record pdf_args =
  arg_student_name :: ustr
  arg_klase :: ustr
  arg_akademiniai_metai :: ustr
  arg_school :: ustr
  arg_subjects_dict :: "(ustr \<times> ustr) list"

type_synonym bytes = "nat list"

definition safe_name_of :: "ustr \<Rightarrow> ustr" where
  "safe_name_of student_name =
     replace 124 (ascii ''-'') (replace 62 (ascii '')'') (replace 60 (ascii ''('')
       (replace 34 [] (replace 63 [] (replace 42 (ascii ''-'') (replace 58 (ascii ''-'')
         (replace 92 (ascii ''-'') (replace 47 (ascii ''-'') student_name))))))))"

fun zip_loop ::
  "unicode_db \<Rightarrow> (pdf_args \<Rightarrow> error + bytes) \<Rightarrow> table \<Rightarrow> ustr \<Rightarrow> ustr \<Rightarrow> ustr \<Rightarrow>
   cell list list \<Rightarrow> (ustr \<times> bytes) list \<Rightarrow> error + (ustr \<times> bytes) list" where
  "zip_loop U render T school klase akadem_metai [] zf = Inr zf"
| "zip_loop U render T school klase akadem_metai (row # rows) zf =
     (case row_get T row col_name of
        Inl e \<Rightarrow> Inl e
      | Inr v \<Rightarrow>
          (let student_name = strip (str_of v) in
           if student_name = [] \<or> str_lower U student_name = ascii ''nan''
             then zip_loop U render T school klase akadem_metai rows zf
           else if strip_accents_lower U (Str student_name) = strip_accents_lower U (Str summary_name)
             then zip_loop U render T school klase akadem_metai rows zf
           else
             (case subjects_loop U T row (columns T) [] of
                Inl e \<Rightarrow> Inl e
              | Inr subjects \<Rightarrow>
                  (case render \<lparr> arg_student_name = student_name, arg_klase = klase,
                                 arg_akademiniai_metai = akadem_metai, arg_school = school,
                                 arg_subjects_dict = subjects \<rparr> of
                     Inl e \<Rightarrow> Inl e
                   | Inr pdf_bytes \<Rightarrow>
                       zip_loop U render T school klase akadem_metai rows
                         (zf @ [(safe_name_of student_name @ ascii ''.pdf'', pdf_bytes)])))))"

text \<open>What the user sees after an upload: the error of the handler at the end of the
  script, the preview alone when the button was not pressed, the message that no rows
  were found, or the archive for download, an ordered list of named documents.\<close>

datatype outcome =
    Failed error
  | Preview
  | NoRows
  | Download "(ustr \<times> bytes) list"

definition py_or :: "ustr \<Rightarrow> ustr \<Rightarrow> ustr" where
  "py_or a b = (if a \<noteq> [] then a else b)"

definition main ::
  "unicode_db \<Rightarrow> (pdf_args \<Rightarrow> error + bytes) \<Rightarrow> dataframe \<Rightarrow> ustr \<Rightarrow> ustr \<Rightarrow> ustr \<Rightarrow> bool \<Rightarrow> outcome" where
  "main U render df0 akadem_metai_input override_school override_class button =
     (case parse_excel_to_df U df0 of
        Inl e \<Rightarrow> Failed e
      | Inr (df_students, meta) \<Rightarrow>
          (case student_table U df_students of
             Inl e \<Rightarrow> Failed e
           | Inr df_students \<Rightarrow>
               (let school = py_or override_school (meta_mokykla meta);
                    klase = py_or override_class (meta_klase meta);
                    akadem_metai = py_or akadem_metai_input (meta_akadem_metai meta)
                in if button then
                     (if body df_students = [] then NoRows
                      else case zip_loop U render df_students school klase akadem_metai
                                  (body df_students) [] of
                             Inl e \<Rightarrow> Failed e
                           | Inr zf \<Rightarrow> Download zf)
                   else Preview)))"

section \<open>Definitions for the properties\<close>

text \<open>The character before a position that lies behind the prefix \<open>pre\<close>, and the states
  in which a greedy repetition of one class can stop.\<close>

definition ctx_after :: "uchar option \<Rightarrow> ustr \<Rightarrow> uchar option" where
  "ctx_after p pre = (if pre = [] then p else Some (last pre))"

fun lit_star_states :: "(uchar \<Rightarrow> bool) \<Rightarrow> uchar option \<Rightarrow> ustr \<Rightarrow> ustr list \<Rightarrow> mstate list" where
  "lit_star_states P p [] g = [(p, [], g)]"
| "lit_star_states P p (c # cs) g =
     (if P c then lit_star_states P (Some c) cs g @ [(p, c # cs, g)] else [(p, c # cs, g)])"


definition ascii_lower :: "uchar \<Rightarrow> uchar" where
  "ascii_lower c = (if 65 \<le> c \<and> c \<le> 90 then c + 32 else c)"

definition db_ascii :: "unicode_db \<Rightarrow> bool" where
  "db_ascii U \<longleftrightarrow>
     (\<forall>p c. p < 128 \<and> c < 128 \<longrightarrow> re_ci U p c = (ascii_lower c = ascii_lower p)) \<and>
     (\<forall>c. c < 128 \<longrightarrow> isalnum U c = ((48 \<le> c \<and> c \<le> 57) \<or> (65 \<le> c \<and> c \<le> 90) \<or> (97 \<le> c \<and> c \<le> 122))) \<and>
     (\<forall>c. c < 128 \<longrightarrow> isdecimal U c = (48 \<le> c \<and> c \<le> 57)) \<and>
     (\<forall>s. (\<forall>c\<in>set s. c < 128) \<longrightarrow> str_lower U s = map ascii_lower s)"

text \<open>
  A class label of the final year in the words of its description: the letters I and V
  in either case, then optional whitespace and at most one letter, which is a letter of
  the Latin alphabet or one of the nine Lithuanian letters with a diacritic, in either
  case. \<open>has_token\<close> says that a text, read behind a word character or not (\<open>pw\<close>), contains
  \<open>tok\<close> with no word character before or behind it.
\<close>

definition suffix_letters :: ustr where
  "suffix_letters = ascii ''ABCDEFGHIJKLMNOPQRSTUVWXYZ'' @
     [0x104, 0x10C, 0x118, 0x116, 0x12E, 0x160, 0x172, 0x16A, 0x17D]"

definition roman_iv_label :: "unicode_db \<Rightarrow> ustr \<Rightarrow> bool" where
  "roman_iv_label U k =
     (case k of
        i # v # t \<Rightarrow>
          re_ci U 73 i \<and> re_ci U 86 v \<and>
          (case dropWhile isspace t of
             [] \<Rightarrow> True
           | [x] \<Rightarrow> list_ex (\<lambda>c. re_ci U c x) suffix_letters
           | _ \<Rightarrow> False)
      | _ \<Rightarrow> False)"

fun has_token :: "unicode_db \<Rightarrow> ustr \<Rightarrow> bool \<Rightarrow> ustr \<Rightarrow> bool" where
  "has_token U tok pw [] = False"
| "has_token U tok pw (c # cs) =
     ((\<not> pw \<and> startswith (c # cs) tok \<and> \<not> word_after U (drop (length tok) (c # cs))) \<or>
      has_token U tok (isword U c) cs)"

text \<open>
  The cleaner in the words of its description: \<open>has_tag\<close> says that a text, read behind a
  word character or not (\<open>pw\<close>), contains one of the tags PR and IN as a token of its
  own, \<open>del_tags\<close> deletes these tokens from the left, \<open>squeeze\<close> replaces every run of two
  or more whitespace characters by one space, \<open>ws2_free\<close> says that no two whitespace
  characters are neighbours, and \<open>seps\<close> are the characters trimmed from the ends.
  \<open>db_words\<close> states what the cleaner needs of the Unicode database: whitespace and the
  separators are no word characters, and whatever matches a letter of a tag is one.
\<close>

definition tag_pair :: "unicode_db \<Rightarrow> uchar \<Rightarrow> uchar \<Rightarrow> bool" where
  "tag_pair U a b \<longleftrightarrow> (re_ci U 80 a \<and> re_ci U 82 b) \<or> (re_ci U 73 a \<and> re_ci U 78 b)"

definition tag_here :: "unicode_db \<Rightarrow> bool \<Rightarrow> ustr \<Rightarrow> bool" where
  "tag_here U pw s =
     (case s of
        a # b # t \<Rightarrow> tag_pair U a b \<and> pw \<noteq> isword U a \<and> isword U b \<noteq> word_after U t
      | _ \<Rightarrow> False)"

fun has_tag :: "unicode_db \<Rightarrow> bool \<Rightarrow> ustr \<Rightarrow> bool" where
  "has_tag U pw [] = False"
| "has_tag U pw (c # cs) = (tag_here U pw (c # cs) \<or> has_tag U (isword U c) cs)"

fun del_tags :: "unicode_db \<Rightarrow> bool \<Rightarrow> ustr \<Rightarrow> ustr" where
  "del_tags U pw (a # b # t) =
     (if tag_here U pw (a # b # t) then del_tags U (isword U b) t
      else a # del_tags U (isword U a) (b # t))"
| "del_tags U pw s = s"

function squeeze :: "ustr \<Rightarrow> ustr" where
  "squeeze [] = []"
| "squeeze (c # cs) =
     (if isspace c \<and> cs \<noteq> [] \<and> isspace (hd cs) then 32 # squeeze (dropWhile isspace cs)
      else c # squeeze cs)"
  by pat_completeness auto
termination
  by (relation "measure length") (auto simp: length_dropWhile_le le_imp_less_Suc)

fun ws2_free :: "ustr \<Rightarrow> bool" where
  "ws2_free (a # b # t) = (\<not> (isspace a \<and> isspace b) \<and> ws2_free (b # t))"
| "ws2_free s = True"

definition seps :: ustr where
  "seps = ascii '' ()[]{}-/|,;.''"

definition db_words :: "unicode_db \<Rightarrow> bool" where
  "db_words U \<longleftrightarrow>
     (\<forall>c. isspace c \<longrightarrow> \<not> isword U c) \<and>
     (\<forall>c. c \<in> set seps \<longrightarrow> \<not> isword U c) \<and>
     (\<forall>c. re_ci U 80 c \<or> re_ci U 82 c \<or> re_ci U 73 c \<or> re_ci U 78 c \<longrightarrow> isword U c)"

text \<open>
  The value filter in the words of its description. \<open>level_names\<close> are the four
  achievement levels (the fourth is written with the letter U+0161). \<open>starts_with_level\<close>
  says that a text starts with one of them, in any case; \<open>level_value\<close> says so and that
  the name ends at a word boundary. A cell is \<open>excluded\<close> when it is missing, blank, the
  text \<open>nan\<close>, a level value, or cleaned to nothing. \<open>subject_labels\<close> are the labels of a
  table other than the two fixed ones, and \<open>cleaned_subjects\<close> is the CleanedSubjectSet of a
  row: the subject columns whose cell is not excluded, from left to right, each with its
  cleaned value.
\<close>

definition level_names :: "ustr list" where
  "level_names = [ascii ''slenkstinis'', ascii ''patenkinamas'', ascii ''pagrindinis'',
     ascii ''auk'' @ [0x161] @ ascii ''tesnysis'']"

definition ci_prefix :: "unicode_db \<Rightarrow> ustr \<Rightarrow> ustr \<Rightarrow> bool" where
  "ci_prefix U n s \<longleftrightarrow> length n \<le> length s \<and> list_all2 (re_ci U) n (take (length n) s)"

definition starts_with_level :: "unicode_db \<Rightarrow> ustr \<Rightarrow> bool" where
  "starts_with_level U sv = list_ex (\<lambda>n. ci_prefix U n sv) level_names"

definition level_value :: "unicode_db \<Rightarrow> ustr \<Rightarrow> bool" where
  "level_value U sv =
     list_ex (\<lambda>n. ci_prefix U n sv \<and>
                  isword U (sv ! (length n - 1)) \<noteq> word_after U (drop (length n) sv)) level_names"

definition excluded :: "unicode_db \<Rightarrow> cell \<Rightarrow> bool" where
  "excluded U v \<longleftrightarrow>
     \<not> notna v \<or> strip (str_of v) = [] \<or> str_lower U (strip (str_of v)) = ascii ''nan'' \<or>
     level_value U (strip (str_of v)) \<or> clean_value_remove_tags U (strip (str_of v)) = []"

definition subject_labels :: "table \<Rightarrow> ustr list" where
  "subject_labels T = filter (\<lambda>c. c \<noteq> col_nr \<and> c \<noteq> col_name) (columns T)"

definition cleaned_subjects :: "unicode_db \<Rightarrow> table \<Rightarrow> cell list \<Rightarrow> (ustr \<times> ustr) list" where
  "cleaned_subjects U T row =
     map (\<lambda>i. (columns T ! i, clean_value_remove_tags U (strip (str_of (row ! i)))))
       (filter (\<lambda>i. columns T ! i \<noteq> col_nr \<and> columns T ! i \<noteq> col_name \<and> \<not> excluded U (row ! i))
          [0 ..< length (columns T)])"

text \<open>The entries of the dictionary that come from the columns at the positions \<open>js\<close>.\<close>

definition subject_entries :: "unicode_db \<Rightarrow> table \<Rightarrow> cell list \<Rightarrow> nat list \<Rightarrow> (ustr \<times> ustr) list" where
  "subject_entries U T row js =
     map (\<lambda>i. (columns T ! i, clean_value_remove_tags U (strip (str_of (row ! i)))))
       (filter (\<lambda>i. columns T ! i \<noteq> col_nr \<and> columns T ! i \<noteq> col_name \<and> \<not> excluded U (row ! i)) js)"

text \<open>A row of a table with three subject columns, for the examples, the same row in a
  table whose first label stands twice, and a table in which a subject stands twice.\<close>

definition ex_columns :: "ustr list" where
  "ex_columns = [col_nr, col_name, ascii ''Matematika'', ascii ''Lygis'', ascii ''Etika'']"

definition ex_row :: "cell list" where
  "ex_row = [Obj (ascii ''1''), Str (ascii ''Jonaitis Jonas''), Str (ascii ''9 PR''),
     Str (ascii ''Patenkinamas''), Str (ascii ''Pagrindinis_lygis'')]"

definition ex_table :: table where
  "ex_table = \<lparr> columns = ex_columns, body = [ex_row] \<rparr>"

definition ex_table_nr :: table where
  "ex_table_nr = \<lparr> columns = col_nr # ex_columns, body = [Obj (ascii ''7'') # ex_row] \<rparr>"

definition ex_table_dup :: table where
  "ex_table_dup = \<lparr> columns = ex_columns @ [ascii ''Etika''], body = [ex_row @ [Obj (ascii ''9'')]] \<rparr>"

text \<open>
  The metadata scanner in the words of its description: the trimmed texts of the string
  cells of the window in scan order, the last text that matches (or a default), the text
  behind and before the first colon, and the two tests on a cell's text.
\<close>

definition window_texts :: "dataframe \<Rightarrow> ustr list" where
  "window_texts df =
     concat (map (\<lambda>(r, c). case cells df r c of Str v \<Rightarrow> [strip v] | _ \<Rightarrow> []) (window df))"

definition last_match :: "(ustr \<Rightarrow> bool) \<Rightarrow> (ustr \<Rightarrow> ustr) \<Rightarrow> ustr \<Rightarrow> ustr list \<Rightarrow> ustr" where
  "last_match P f d ts = (case filter P ts of [] \<Rightarrow> d | ms \<Rightarrow> f (last ms))"

definition after_colon :: "ustr \<Rightarrow> ustr" where
  "after_colon txt = strip (split1_after 58 txt)"

definition school_text :: "unicode_db \<Rightarrow> ustr \<Rightarrow> bool" where
  "school_text U txt \<longleftrightarrow> contains (ascii ''mokykla'') (str_lower U txt) \<and> 58 \<in> set txt"

definition class_text :: "unicode_db \<Rightarrow> ustr \<Rightarrow> bool" where
  "class_text U txt \<longleftrightarrow>
     (contains (ascii ''klas'' @ [0x117]) (str_lower U txt) \<or> contains (ascii ''klase'') (str_lower U txt)) \<and>
     58 \<in> set txt"

definition before_colon :: "ustr \<Rightarrow> ustr" where
  "before_colon txt = takeWhile (\<lambda>c. c \<noteq> 58) txt"

text \<open>
  A year range: \<open>20\<close> and two digits, a hyphen or an en dash with optional whitespace on
  both sides, \<open>20\<close> and two digits. \<open>year_at\<close> reads one at the start of a text and
  \<open>find_years\<close> the leftmost one in a text; \<open>academic_year\<close> is the result of the scan over
  the texts of the window.
\<close>

definition year4 :: "unicode_db \<Rightarrow> ustr \<Rightarrow> (ustr \<times> uchar \<times> ustr) option" where
  "year4 U s =
     (case s of
        a # b # c # d # rest \<Rightarrow>
          if a = 50 \<and> b = 48 \<and> isdecimal U c \<and> isdecimal U d then Some ([a, b, c, d], d, rest)
          else None
      | _ \<Rightarrow> None)"

definition year_at :: "unicode_db \<Rightarrow> ustr \<Rightarrow> (ustr \<times> ustr) option" where
  "year_at U s =
     (case year4 U s of
        None \<Rightarrow> None
      | Some (y1, d, rest) \<Rightarrow>
          (case dropWhile isspace rest of
             [] \<Rightarrow> None
           | dash # rest2 \<Rightarrow>
               if dash = 0x2013 \<or> dash = 0x2D then
                 (case year4 U (dropWhile isspace rest2) of
                    None \<Rightarrow> None
                  | Some (y2, d2, rest3) \<Rightarrow> Some (y1, y2))
               else None))"

fun find_years :: "unicode_db \<Rightarrow> ustr \<Rightarrow> (ustr \<times> ustr) option" where
  "find_years U [] = None"
| "find_years U (c # cs) = (case year_at U (c # cs) of Some y \<Rightarrow> Some y | None \<Rightarrow> find_years U cs)"


definition academic_year :: "unicode_db \<Rightarrow> ustr \<Rightarrow> ustr list \<Rightarrow> ustr" where
  "academic_year U d ts =
     (case List.find (\<lambda>t. find_years U t \<noteq> None) ts of
        Some t \<Rightarrow> (case find_years U t of Some (y1, y2) \<Rightarrow> y1 @ [0x2013] @ y2 | None \<Rightarrow> [])
      | None \<Rightarrow> last_match (\<lambda>t. contains (ascii ''mokslo metai'') (str_lower U t)) (\<lambda>t. t) d ts)"

text \<open>
  The table builder in the words of its description: the trimmed text of a cell (empty for
  a missing one), the placeholder name of column \<open>j\<close>, and the name of a subject column.
  \<open>nat_of_digits\<close> reads a decimal numeral back.
\<close>

definition cell_text :: "cell \<Rightarrow> ustr" where
  "cell_text v = (if notna v then strip (str_of v) else [])"

definition placeholder :: "nat \<Rightarrow> ustr" where
  "placeholder j = ascii ''Dalykas_'' @ str_nat (j - 1)"

definition column_name :: "dataframe \<Rightarrow> nat \<Rightarrow> nat \<Rightarrow> ustr" where
  "column_name df subjects_row j =
     (let t = cell_text (cells df subjects_row j) in if t = [] then placeholder j else t)"

definition nat_of_digits :: "ustr \<Rightarrow> nat" where
  "nat_of_digits ds = foldl (\<lambda>a d. 10 * a + (d - 48)) 0 ds"

text \<open>Two sheets for the examples: one with a blank subject cell, a student called
  \<open>nan\<close> and a summary row that holds the only value of a column, and one with the same
  subject twice.\<close>

definition ex_grid :: dataframe where
  "ex_grid = of_rows
     [[Str (ascii ''Eil. Nr.''), Str col_name, NA, NA],
      [NA, NA, Str (ascii '' Fizika ''), NA],
      [Obj (ascii ''1''), Str (ascii ''Jonaitis Jonas''), Obj (ascii ''8''), NA],
      [Obj (ascii ''2''), Str (ascii ''nan''), Obj (ascii ''9''), NA],
      [NA, Str summary_name, NA, Obj (ascii ''8.5'')]]"

definition ex_dup_grid :: dataframe where
  "ex_dup_grid = of_rows
     [[Str (ascii ''Eil. Nr.''), Str col_name, NA, NA],
      [NA, NA, Str (ascii ''Fizika''), Str (ascii ''Fizika'')]]"

text \<open>The header locator in the words of its description, and two sheets for the examples.\<close>

definition spec_header_row :: "unicode_db \<Rightarrow> dataframe \<Rightarrow> nat \<Rightarrow> bool" where
  "spec_header_row U df i \<longleftrightarrow>
     startswith (str_lower U (cell_text (cells df i 0))) (ascii ''eil'') \<and>
     (let c1 = str_lower U (if 1 < ncols df then cell_text (cells df i 1) else [])
      in contains (ascii ''pavard'') c1 \<or> contains (ascii ''vard'') c1)"

definition ex_header_grid :: dataframe where
  "ex_header_grid = of_rows
     [[Str (ascii ''Mokykla: X''), NA],
      [NA, Str (ascii ''vardas'')],
      [Str (ascii '' EIL. NR. ''), Str (ascii ''Mokinio pavard'' @ [0x117])],
      [Str (ascii ''Eil.''), Str (ascii ''Vardas'')]]"

definition ex_no_header_grid :: dataframe where
  "ex_no_header_grid = of_rows [[Str (ascii ''Nr.''), Str (ascii ''Vardas'')], [Obj (ascii ''1''), Str (ascii ''Jonas'')]]"

text \<open>
  The invariant of the table in the words of its description: a column has a value when
  some cell of it is not missing, and the names are present when no cell of the name
  column is missing. \<open>level_column\<close> says that a label matches the pattern of the
  achievement-level columns, \<open>summary_row\<close> that a name normalises to the summary phrase,
  and \<open>summary_mask\<close> marks the rows of a table that are no summary rows.
\<close>

definition column_has_value :: "table \<Rightarrow> ustr \<Rightarrow> bool" where
  "column_has_value T c = (case getitem T c of Inr vs \<Rightarrow> list_ex notna vs | Inl e \<Rightarrow> False)"

definition names_present :: "table \<Rightarrow> bool" where
  "names_present T = (case getitem T col_name of Inr ns \<Rightarrow> list_all notna ns | Inl e \<Rightarrow> False)"

definition level_column :: "unicode_db \<Rightarrow> ustr \<Rightarrow> bool" where
  "level_column U c \<longleftrightarrow> re_search U (ACH_LVL_COL_RE U) c \<noteq> None"

definition summary_row :: "unicode_db \<Rightarrow> cell \<Rightarrow> bool" where
  "summary_row U v \<longleftrightarrow>
     strip_accents_lower U (Str (str_of v)) = strip_accents_lower U (Str summary_name)"

definition summary_mask :: "unicode_db \<Rightarrow> table \<Rightarrow> bool list" where
  "summary_mask U T =
     (case getitem T col_name of Inr ns \<Rightarrow> map (\<lambda>v. \<not> summary_row U v) ns | Inl e \<Rightarrow> [])"

text \<open>
  The archive in the words of its description: what becomes of one character in the name
  of a document, the nine unsafe characters (slash, backslash, colon, asterisk, question
  mark, double quote, the two angle brackets and the bar), the trimmed name of a row,
  the rows that get a document, and the document of a row, which \<open>pdf\<close> renders.
\<close>

definition safe_char :: "uchar \<Rightarrow> ustr" where
  "safe_char c =
     (if c = 63 \<or> c = 34 then []
      else if c = 60 then [40]
      else if c = 62 then [41]
      else if c = 47 \<or> c = 92 \<or> c = 58 \<or> c = 42 \<or> c = 124 then [45]
      else [c])"

definition unsafe_chars :: ustr where
  "unsafe_chars = [47, 92, 58, 42, 63, 34, 60, 62, 124]"

definition display_name :: "table \<Rightarrow> cell list \<Rightarrow> ustr" where
  "display_name T row =
     (case label_position T col_name of Inr i \<Rightarrow> strip (str_of (row ! i)) | Inl e \<Rightarrow> [])"

definition has_document :: "unicode_db \<Rightarrow> ustr \<Rightarrow> bool" where
  "has_document U n \<longleftrightarrow>
     n \<noteq> [] \<and> str_lower U n \<noteq> ascii ''nan'' \<and>
     strip_accents_lower U (Str n) \<noteq> strip_accents_lower U (Str summary_name)"

definition document ::
  "unicode_db \<Rightarrow> (pdf_args \<Rightarrow> bytes) \<Rightarrow> table \<Rightarrow> ustr \<Rightarrow> ustr \<Rightarrow> ustr \<Rightarrow> cell list \<Rightarrow> ustr \<times> bytes" where
  "document U pdf T school klase metai row =
     (concat (map safe_char (display_name T row)) @ ascii ''.pdf'',
      pdf \<lparr> arg_student_name = display_name T row, arg_klase = klase,
            arg_akademiniai_metai = metai, arg_school = school,
            arg_subjects_dict = cleaned_subjects U T row \<rparr>)"

text \<open>A sheet for the examples of the table and the archive: a blank subject cell, a
  student whose name holds a slash, a row whose name is a single space, and a summary row
  that holds the only value of a column; the table that the table builder makes of it, and
  the table that is left when the summary row is dropped.\<close>

definition ex_sheet :: dataframe where
  "ex_sheet = of_rows
     [[Str (ascii ''Eil. Nr.''), Str col_name, NA, NA],
      [NA, NA, Str (ascii '' Fizika ''), NA],
      [Obj (ascii ''1''), Str (ascii ''Jonaitis/Jonas''), Obj (ascii ''8''), NA],
      [Obj (ascii ''2''), Str (ascii '' ''), Obj (ascii ''9''), NA],
      [NA, Str summary_name, NA, Obj (ascii ''8.5'')]]"

definition ex_parsed :: table where
  "ex_parsed =
     \<lparr> columns = [col_nr, col_name, ascii ''Fizika'', ascii ''Dalykas_2''],
       body = [[Obj (ascii ''1''), Str (ascii ''Jonaitis/Jonas''), Obj (ascii ''8''), NA],
               [Obj (ascii ''2''), Str (ascii '' ''), Obj (ascii ''9''), NA],
               [NA, Str summary_name, NA, Obj (ascii ''8.5'')]] \<rparr>"

definition ex_final :: table where
  "ex_final =
     \<lparr> columns = [col_nr, col_name, ascii ''Fizika'', ascii ''Dalykas_2''],
       body = [[Obj (ascii ''1''), Str (ascii ''Jonaitis/Jonas''), Obj (ascii ''8''), NA],
               [Obj (ascii ''2''), Str (ascii '' ''), Obj (ascii ''9''), NA]] \<rparr>"

section \<open>Lemmas\<close>

lemmas lt_db_simps =
  lt_db_def [THEN arg_cong, of str_lower, simplified]
  lt_db_def [THEN arg_cong, of re_ci, simplified]
  lt_db_def [THEN arg_cong, of isalnum, simplified]
  lt_db_def [THEN arg_cong, of isdecimal, simplified]
  lt_db_def [THEN arg_cong, of int_ok, simplified]
  lt_db_def [THEN arg_cong, of nfd, simplified]
  lt_db_def [THEN arg_cong, of category_Mn, simplified]

lemma rmatch_Seq_mem:
  "x \<in> set (rmatch U (Seq a b) st) \<longleftrightarrow> (\<exists>y\<in>set (rmatch U a st). x \<in> set (rmatch U b y))"
  by auto

lemma star_iter_Lit:
  "length s \<le> n \<Longrightarrow> star_iter (rmatch U (Lit P)) n (p, s, g) = lit_star_states P p s g"
proof (induction s arbitrary: n p)
  case Nil
  then show ?case by (cases n) simp_all
next
  case (Cons c cs)
  then obtain m where n: "n = Suc m" and m: "length cs \<le> m" by (cases n) auto
  show ?case using Cons.IH [OF m] by (simp add: n)
qed

lemma rmatch_Star_Lit: "rmatch U (Star (Lit P)) (p, s, g) = lit_star_states P p s g"
  by (simp add: star_iter_Lit)

lemma lit_star_states_ne: "lit_star_states P p s g \<noteq> []"
  by (cases s) auto

lemma lit_star_states_hd:
  "hd (lit_star_states P p s g) = (ctx_after p (takeWhile P s), dropWhile P s, g)"
  by (induction s arbitrary: p) (auto simp: ctx_after_def hd_append lit_star_states_ne)

lemma lit_star_then_Lit:
  assumes "\<And>c. Q c \<Longrightarrow> \<not> P c"
  shows "concat (map (rmatch U (Lit Q)) (lit_star_states P p s g)) =
         rmatch U (Lit Q) (ctx_after p (takeWhile P s), dropWhile P s, g)"
proof (induction s arbitrary: p)
  case Nil
  show ?case by (simp add: ctx_after_def)
next
  case (Cons c cs)
  show ?case
  proof (cases "P c")
    case True
    then have "\<not> Q c" using assms by auto
    with True Cons show ?thesis by (simp add: ctx_after_def)
  next
    case False
    then show ?thesis by (simp add: ctx_after_def)
  qed
qed

lemma re_search_from_None:
  "re_search_from U r p s = None \<longleftrightarrow>
     (\<forall>pre post. s = pre @ post \<longrightarrow> rmatch U r (ctx_after p pre, post, []) = [])"
proof (induction s arbitrary: p)
  case Nil
  show ?case by (auto simp: ctx_after_def split: list.splits)
next
  case (Cons c cs)
  show ?case
  proof (cases "rmatch U r (p, c # cs, [])")
    case Nil
    have "(\<forall>pre post. c # cs = pre @ post \<longrightarrow> rmatch U r (ctx_after p pre, post, []) = []) \<longleftrightarrow>
          (\<forall>pre post. cs = pre @ post \<longrightarrow> rmatch U r (ctx_after (Some c) pre, post, []) = [])"
      (is "?L \<longleftrightarrow> ?R")
    proof
      assume L: ?L
      show ?R
      proof (intro allI impI)
        fix pre post assume "cs = pre @ post"
        then have "c # cs = (c # pre) @ post" by simp
        from L [rule_format, OF this] show "rmatch U r (ctx_after (Some c) pre, post, []) = []"
          by (simp add: ctx_after_def split: if_splits)
      qed
    next
      assume R: ?R
      show ?L
      proof (intro allI impI)
        fix pre post assume e: "c # cs = pre @ post"
        show "rmatch U r (ctx_after p pre, post, []) = []"
        proof (cases pre)
          case Nil
          with e Nil show ?thesis using \<open>rmatch U r (p, c # cs, []) = []\<close> by (simp add: ctx_after_def)
        next
          case (Cons a pre')
          with e have "cs = pre' @ post" "a = c" by auto
          from R [rule_format, OF this(1)] Cons \<open>a = c\<close> show ?thesis
            by (simp add: ctx_after_def split: if_splits)
        qed
      qed
    qed
    with Nil Cons.IH [of "Some c"] show ?thesis by simp
  next
    case (Cons a list)
    then have "rmatch U r (ctx_after p [], c # cs, []) \<noteq> []" by (simp add: ctx_after_def)
    then have "\<not> (\<forall>pre post. c # cs = pre @ post \<longrightarrow> rmatch U r (ctx_after p pre, post, []) = [])"
      by (metis append_Nil)
    with Cons show ?thesis by (auto split: prod.splits)
  qed
qed

lemma lt_lower1_ascii: "c < 128 \<Longrightarrow> lt_lower1 c = ascii_lower c"
  by (simp add: lt_lower1_def ascii_lower_def lt_upper_def)

lemma lt_isalnum_ascii:
  "c < 128 \<Longrightarrow> lt_isalnum c = ((48 \<le> c \<and> c \<le> 57) \<or> (65 \<le> c \<and> c \<le> 90) \<or> (97 \<le> c \<and> c \<le> 122))"
  by (simp add: lt_isalnum_def lt_upper_def)

lemma db_ascii_lt_db: "db_ascii lt_db"
  unfolding db_ascii_def
  by (auto simp: lt_db_simps lt_lower1_ascii lt_isalnum_ascii)

lemma db_ascii_ci: "db_ascii U \<Longrightarrow> p < 128 \<Longrightarrow> c < 128 \<Longrightarrow> re_ci U p c = (ascii_lower c = ascii_lower p)"
  by (simp add: db_ascii_def)

lemma db_ascii_isalnum:
  "db_ascii U \<Longrightarrow> c < 128 \<Longrightarrow> isalnum U c = ((48 \<le> c \<and> c \<le> 57) \<or> (65 \<le> c \<and> c \<le> 90) \<or> (97 \<le> c \<and> c \<le> 122))"
  by (simp add: db_ascii_def)

lemma db_ascii_isword:
  "db_ascii U \<Longrightarrow> c < 128 \<Longrightarrow> isword U c = ((48 \<le> c \<and> c \<le> 57) \<or> (65 \<le> c \<and> c \<le> 90) \<or> (97 \<le> c \<and> c \<le> 122) \<or> c = 95)"
  by (simp add: isword_def db_ascii_isalnum)

lemmas str_defs = ascii_def strip_def strip_by_def strip_chars_def isspace_def startswith_def
  split1_after_def replace_def

lemmas re_defs = re_match_def re_search_def re_sub_def lit_def lits_ci_def class_ci_def re_s_def
  re_w_def re_d_def Opt_def word_before_def word_after_def

lemma rmatch_HAS_12:
  "rmatch U HAS_12_RE (p, s, g) \<noteq> [] \<longleftrightarrow>
     (\<exists>t. s = 49 # 50 # t \<and> word_before U p \<noteq> isword U 49 \<and> isword U 50 \<noteq> word_after U t)"
proof (cases s)
  case Nil
  then show ?thesis by (simp add: HAS_12_RE_def lit_def)
next
  case (Cons a s')
  show ?thesis
  proof (cases s')
    case Nil
    with Cons show ?thesis by (simp add: HAS_12_RE_def lit_def)
  next
    case (Cons b t)
    with \<open>s = a # s'\<close> show ?thesis
      by (auto simp: HAS_12_RE_def lit_def word_after_def word_before_def)
  qed
qed

lemma has_token_12_search:
  assumes "isword U 49" "isword U 50"
  shows "has_token U [49, 50] (word_before U p) s \<Longrightarrow> re_search_from U HAS_12_RE p s \<noteq> None"
proof (induction s arbitrary: p)
  case Nil
  then show ?case by simp
next
  case (Cons c cs)
  show ?case
  proof (cases "rmatch U HAS_12_RE (p, c # cs, [])")
    case (Cons a list)
    then show ?thesis by (simp split: prod.splits)
  next
    case Nil
    then have n: "\<not> (\<exists>t. c # cs = 49 # 50 # t \<and> word_before U p \<noteq> isword U 49 \<and> isword U 50 \<noteq> word_after U t)"
      using rmatch_HAS_12 [of U p "c # cs" "[]"] by simp
    have "has_token U [49, 50] (isword U c) cs"
    proof (rule ccontr)
      assume "\<not> has_token U [49, 50] (isword U c) cs"
      with Cons.prems have a: "\<not> word_before U p" "startswith (c # cs) [49, 50]"
        "\<not> word_after U (drop 2 (c # cs))" by auto
      from a(2) obtain t where "c # cs = 49 # 50 # t"
        by (cases cs) (auto simp: startswith_def)
      with a n assms show False by auto
    qed
    then have "has_token U [49, 50] (word_before U (Some c)) cs" by (simp add: word_before_def)
    from Cons.IH [OF this] Nil show ?thesis by simp
  qed
qed

lemma rmatch_SeqI:
  "y \<in> set (rmatch U a st) \<Longrightarrow> x \<in> set (rmatch U b y) \<Longrightarrow> x \<in> set (rmatch U (Seq a b) st)"
  by auto

lemma suffix_letters_class: "suffix_letters = class_letters"
  by (simp add: suffix_letters_def class_letters_def ascii_def upt_rec)

lemma rmatch_FINAL_CLASS:
  assumes "roman_iv_label U k"
  shows "rmatch U (FINAL_CLASS_RE U) (None, k, []) \<noteq> []"
proof -
  from assms obtain i v t where k: "k = i # v # t" and iv: "re_ci U 73 i" "re_ci U 86 v"
    and t0: "case dropWhile isspace t of [] \<Rightarrow> True | [x] \<Rightarrow> list_ex (\<lambda>c. re_ci U c x) class_letters
               | _ \<Rightarrow> False"
    by (auto simp: roman_iv_label_def suffix_letters_class split: list.splits)
  define r where "r = dropWhile isspace t"
  from t0 have t: "r = [] \<or> (\<exists>x. r = [x] \<and> list_ex (\<lambda>c. re_ci U c x) class_letters)"
    unfolding r_def [symmetric] by (cases r) (auto split: list.splits)
  let ?st0 = "(None, k, [])"
  have 1: "?st0 \<in> set (rmatch U (Star re_s) ?st0)"
    by (cases "length k") (simp_all add: re_s_def)
  have 2: "(Some v, t, []) \<in> set (rmatch U (lits_ci U (ascii ''IV'')) ?st0)"
    using iv by (simp add: k lits_ci_def ascii_def)
  define st3 where "st3 = (ctx_after (Some v) (takeWhile isspace t), dropWhile isspace t, [] :: ustr list)"
  define q where "q = ctx_after (Some v) (takeWhile isspace t)"
  have 3: "st3 \<in> set (rmatch U (Star re_s) (Some v, t, []))"
    unfolding re_s_def rmatch_Star_Lit st3_def
    using lit_star_states_hd [of isspace "Some v" t "[]"] lit_star_states_ne [of isspace "Some v" t "[]"]
    by (metis hd_in_set)
  have st3: "st3 = (q, r, [])"
    by (simp add: st3_def q_def r_def)
  have 4: "\<exists>y. y \<in> set (rmatch U (Opt (class_ci U class_letters)) st3) \<and> fst (snd y) = []"
  proof (cases r)
    case Nil
    then show ?thesis by (auto simp: Opt_def st3)
  next
    case (Cons x r')
    with t have "r' = []" "list_ex (\<lambda>c. re_ci U c x) class_letters" by auto
    with Cons show ?thesis by (auto simp: Opt_def class_ci_def st3)
  qed
  then obtain y where y: "y \<in> set (rmatch U (Opt (class_ci U class_letters)) st3)" "fst (snd y) = []"
    by blast
  obtain yp yg where yy: "y = (yp, [], yg)" using y(2) by (cases y) auto
  have 5: "y \<in> set (rmatch U (Seq (Star re_s) Eol) y)"
    by (simp add: yy re_s_def)
  have 6: "y \<in> set (rmatch U (Seq (Opt (class_ci U class_letters)) (Seq (Star re_s) Eol)) st3)"
    by (rule rmatch_SeqI [OF y(1) 5])
  have 7: "y \<in> set (rmatch U (Seq (Star re_s) (Seq (Opt (class_ci U class_letters))
             (Seq (Star re_s) Eol))) (Some v, t, []))"
    by (rule rmatch_SeqI [OF 3 6])
  have 8: "y \<in> set (rmatch U (Seq (lits_ci U (ascii ''IV'')) (Seq (Star re_s)
             (Seq (Opt (class_ci U class_letters)) (Seq (Star re_s) Eol)))) ?st0)"
    by (rule rmatch_SeqI [OF 2 7])
  have 9: "y \<in> set (rmatch U (Seq (Star re_s) (Seq (lits_ci U (ascii ''IV'')) (Seq (Star re_s)
             (Seq (Opt (class_ci U class_letters)) (Seq (Star re_s) Eol))))) ?st0)"
    by (rule rmatch_SeqI [OF 1 8])
  have 0: "?st0 \<in> set (rmatch U Bol ?st0)" by simp
  have "y \<in> set (rmatch U (FINAL_CLASS_RE U) ?st0)"
    unfolding FINAL_CLASS_RE_def
    by (rule rmatch_SeqI [OF 0 9])
  then show ?thesis by auto
qed

lemmas ascii_eval = db_ascii_ci db_ascii_isword

lemma ex_true:
  assumes U: "db_ascii U"
  shows "roman_iv_label U (strip (ascii ''IV''))" "roman_iv_label U (strip (ascii ''IVa''))"
    "roman_iv_label U (strip (ascii ''iv B''))" "has_token U (ascii ''12'') False (strip (ascii ''class 12''))"
  by (simp_all add: roman_iv_label_def str_defs suffix_letters_def ascii_eval [OF U] ascii_lower_def word_after_def)

lemma ex_false:
  assumes U: "db_ascii U"
  shows "\<not> is_final_class U (Str (ascii ''III''))" "\<not> is_final_class U (Str (ascii ''11''))"
    "\<not> is_final_class U (Str (ascii ''12a''))" "\<not> is_final_class U (Str [])"
  by (simp_all add: is_final_class_def FINAL_CLASS_RE_def HAS_12_RE_def str_defs re_defs ascii_eval [OF U] ascii_lower_def)

lemma rmatch_TAG_short: "length s < 2 \<Longrightarrow> rmatch U (TAG_PR_IN_RE U) (p, s, g) = []"
  by (cases s; cases "tl s") (auto simp: TAG_PR_IN_RE_def lits_ci_def ascii_def)

lemma rmatch_TAG:
  "rmatch U (TAG_PR_IN_RE U) (p, a # b # t, g) =
     (if tag_here U (word_before U p) (a # b # t)
      then (if re_ci U 80 a \<and> re_ci U 82 b then [(Some b, t, g)] else []) @
           (if re_ci U 73 a \<and> re_ci U 78 b then [(Some b, t, g)] else [])
      else [])"
  by (auto simp: TAG_PR_IN_RE_def lits_ci_def ascii_def tag_here_def tag_pair_def
      word_after_def word_before_def)

lemma rmatch_TAG_Nil_iff:
  "rmatch U (TAG_PR_IN_RE U) (p, s, g) = [] \<longleftrightarrow> \<not> tag_here U (word_before U p) s"
proof (cases s)
  case Nil
  then show ?thesis by (simp add: rmatch_TAG_short tag_here_def)
next
  case (Cons a s')
  show ?thesis
  proof (cases s')
    case Nil
    with Cons show ?thesis by (simp add: rmatch_TAG_short tag_here_def)
  next
    case (Cons b t)
    with \<open>s = a # s'\<close> show ?thesis
      by (auto simp: rmatch_TAG) (auto simp: tag_here_def tag_pair_def)
  qed
qed

lemma rmatch_TAG_hd:
  "tag_here U (word_before U p) (a # b # t) \<Longrightarrow>
   \<exists>rest. rmatch U (TAG_PR_IN_RE U) (p, a # b # t, g) = (Some b, t, g) # rest"
  by (auto simp: rmatch_TAG) (auto simp: tag_here_def tag_pair_def)

lemma re_sub_TAG:
  "re_sub_from U (TAG_PR_IN_RE U) [] p s = del_tags U (word_before U p) s"
proof (induction U "word_before U p" s arbitrary: p rule: del_tags.induct)
  case (1 U a b t)
  show ?case
  proof (cases "tag_here U (word_before U p) (a # b # t)")
    case True
    from rmatch_TAG_hd [OF True] obtain rest where
      "rmatch U (TAG_PR_IN_RE U) (p, a # b # t, []) = (Some b, t, []) # rest" by blast
    with True 1(1) [of "Some b"] show ?thesis by (simp add: word_before_def)
  next
    case False
    then have "rmatch U (TAG_PR_IN_RE U) (p, a # b # t, []) = []"
      by (simp add: rmatch_TAG_Nil_iff)
    with False 1(2) [of "Some a"] show ?thesis by (simp add: word_before_def)
  qed
qed (simp_all add: rmatch_TAG_short)

lemma re_search_TAG:
  "re_search_from U (TAG_PR_IN_RE U) p s = None \<longleftrightarrow> \<not> has_tag U (word_before U p) s"
proof (induction s arbitrary: p)
  case Nil
  show ?case by (simp add: rmatch_TAG_short)
next
  case (Cons c cs)
  show ?case
  proof (cases "rmatch U (TAG_PR_IN_RE U) (p, c # cs, [])")
    case Nil
    then have "\<not> tag_here U (word_before U p) (c # cs)" by (simp add: rmatch_TAG_Nil_iff)
    with Nil Cons [of "Some c"] show ?thesis by (simp add: word_before_def)
  next
    case (Cons x xs)
    then have "tag_here U (word_before U p) (c # cs)"
      using rmatch_TAG_Nil_iff [of U p "c # cs" "[]"] by simp
    with Cons show ?thesis by (simp split: prod.splits)
  qed
qed

lemma rmatch_WS2:
  "rmatch U WS2_RE (p, s, g) =
     (case s of
        a # b # t \<Rightarrow> if isspace a \<and> isspace b then lit_star_states isspace (Some b) t g else []
      | _ \<Rightarrow> [])"
  by (cases s; cases "tl s") (auto simp: WS2_RE_def re_s_def rmatch_Star_Lit simp del: rmatch.simps(8))

lemma re_sub_WS2: "re_sub_from U WS2_RE [32] p s = squeeze s"
proof (induction s arbitrary: p rule: squeeze.induct)
  case 1
  show ?case by simp
next
  case (2 c cs)
  show ?case
  proof (cases "isspace c \<and> cs \<noteq> [] \<and> isspace (hd cs)")
    case True
    then obtain b t where cs: "cs = b # t" and b: "isspace b" by (cases cs) auto
    obtain q gg where h: "hd (lit_star_states isspace (Some b) t []) = (q, dropWhile isspace t, gg)"
      by (simp add: lit_star_states_hd)
    obtain rest where l: "lit_star_states isspace (Some b) t [] = (q, dropWhile isspace t, gg) # rest"
      using h lit_star_states_ne [of isspace "Some b" t "[]"]
      by (cases "lit_star_states isspace (Some b) t []") auto
    have len: "length (dropWhile isspace t) < Suc (Suc (length t))"
      using length_dropWhile_le [of isspace t] by simp
    from True 2(1) [OF True, of q] show ?thesis
      by (simp add: rmatch_WS2 cs b l len)
  next
    case False
    then have "rmatch U WS2_RE (p, c # cs, []) = []"
      by (cases cs) (auto simp: rmatch_WS2)
    with False 2(2) [OF False, of "Some c"] show ?thesis by auto
  qed
qed

lemma db_words_ws: "db_words U \<Longrightarrow> isspace c \<Longrightarrow> \<not> isword U c"
  by (simp add: db_words_def)

lemma db_words_sep: "db_words U \<Longrightarrow> c \<in> set seps \<Longrightarrow> \<not> isword U c"
  by (simp add: db_words_def)

lemma tag_pair_word: "db_words U \<Longrightarrow> tag_pair U a b \<Longrightarrow> isword U a \<and> isword U b"
  by (auto simp: db_words_def tag_pair_def)

lemma tag_hereD:
  assumes "db_words U" "tag_here U pw s"
  shows "\<not> pw \<and> (\<exists>a b t. s = a # b # t \<and> tag_pair U a b \<and> isword U a \<and> isword U b \<and> \<not> word_after U t)"
proof -
  from assms(2) obtain a b t where s: "s = a # b # t" and tp: "tag_pair U a b"
    and bd: "pw \<noteq> isword U a" "isword U b \<noteq> word_after U t"
    by (auto simp: tag_here_def split: list.splits)
  from tag_pair_word [OF assms(1) tp] s tp bd show ?thesis by auto
qed

lemma tag_here_nonword: "db_words U \<Longrightarrow> \<not> isword U c \<Longrightarrow> \<not> tag_here U pw (c # cs)"
  by (auto dest: tag_hereD)

lemma tag_here_True: "db_words U \<Longrightarrow> \<not> tag_here U True s"
  by (auto dest: tag_hereD)

lemma del_tags_True: "db_words U \<Longrightarrow> del_tags U True (c # cs) = c # del_tags U (isword U c) cs"
  by (cases cs) (simp_all add: tag_here_True)

lemma del_tags_nonword:
  "db_words U \<Longrightarrow> \<not> isword U c \<Longrightarrow> del_tags U pw (c # cs) = c # del_tags U False cs"
  by (cases cs) (simp_all add: tag_here_nonword)

lemma word_after_del_tags_True:
  "db_words U \<Longrightarrow> word_after U (del_tags U True t) = word_after U t"
  by (cases t) (simp_all add: del_tags_True word_after_def)

lemma has_tag_nonword:
  "db_words U \<Longrightarrow> \<not> isword U c \<Longrightarrow> has_tag U pw (c # cs) = has_tag U False cs"
  by (simp add: tag_here_nonword)

lemma no_tag_del_tags:
  assumes U: "db_words U"
  shows "\<not> has_tag U pw (del_tags U pw s)"
proof (induction "length s" arbitrary: s pw rule: less_induct)
  case less
  show ?case
  proof (cases s)
    case Nil
    then show ?thesis by simp
  next
    case (Cons a s')
    note s = this
    show ?thesis
    proof (cases s')
      case Nil
      with s show ?thesis by (simp add: tag_here_def)
    next
      case (Cons b t)
      show ?thesis
      proof (cases "tag_here U pw (a # b # t)")
        case True
        from tag_hereD [OF U True] have pw: "\<not> pw" and wb: "isword U b" and wt: "\<not> word_after U t"
          by auto
        have "\<not> has_tag U False (del_tags U True t)"
        proof (cases t)
          case Nil
          then show ?thesis by simp
        next
          case (Cons c cs)
          with wt have c: "\<not> isword U c" by (simp add: word_after_def)
          have "length cs < length s" using s \<open>s' = b # t\<close> Cons by simp
          from less [OF this, of False] c Cons show ?thesis
            by (simp add: del_tags_nonword [OF U c] tag_here_nonword [OF U c])
        qed
        with True pw wb s Cons show ?thesis by simp
      next
        case False
        have l: "length (b # t) < length s" using s Cons by simp
        have ih: "\<not> has_tag U (isword U a) (del_tags U (isword U a) (b # t))"
          by (rule less [OF l])
        have "\<not> tag_here U pw (a # del_tags U (isword U a) (b # t))"
        proof
          assume th: "tag_here U pw (a # del_tags U (isword U a) (b # t))"
          from tag_hereD [OF U th] have wa: "isword U a" by auto
          then have d: "del_tags U (isword U a) (b # t) = b # del_tags U (isword U b) t"
            by (simp add: del_tags_True [OF U])
          from tag_hereD [OF U th] d have wb: "isword U b" by auto
          from th d wb have "tag_here U pw (a # b # t)"
            by (simp add: tag_here_def word_after_del_tags_True [OF U])
          with False show False by simp
        qed
        with ih False s Cons show ?thesis by simp
      qed
    qed
  qed
qed

lemma del_tags_id: "\<not> has_tag U pw s \<Longrightarrow> del_tags U pw s = s"
  by (induction U pw s rule: del_tags.induct) auto

lemma has_tag_dropWhile:
  assumes U: "db_words U" and P: "\<And>c. P c \<Longrightarrow> \<not> isword U c"
  shows "has_tag U False (dropWhile P s) \<Longrightarrow> has_tag U False s"
proof (induction s)
  case Nil
  then show ?case by simp
next
  case (Cons c cs)
  show ?case
  proof (cases "P c")
    case True
    with Cons show ?thesis by (simp add: tag_here_nonword [OF U P [OF True]] P [OF True])
  next
    case False
    with Cons.prems show ?thesis by simp
  qed
qed

lemma has_tag_append:
  assumes r: "r = [] \<or> \<not> isword U (hd r)"
  shows "has_tag U pw x \<Longrightarrow> has_tag U pw (x @ r)"
proof (induction x arbitrary: pw)
  case Nil
  then show ?case by simp
next
  case (Cons c cs)
  have "tag_here U pw (c # cs) \<Longrightarrow> tag_here U pw (c # cs @ r)"
    using r by (cases cs; cases "tl cs"; cases r) (auto simp: tag_here_def word_after_def)
  with Cons show ?case by auto
qed

lemma rstrip_decomp: "rev (dropWhile P (rev u)) @ rev (takeWhile P (rev u)) = u"
proof -
  have "rev (takeWhile P (rev u) @ dropWhile P (rev u)) = u" by simp
  then show ?thesis by (simp only: rev_append)
qed

lemma has_tag_strip_by:
  assumes U: "db_words U" and P: "\<And>c. P c \<Longrightarrow> \<not> isword U c"
  shows "has_tag U False (strip_by P s) \<Longrightarrow> has_tag U False s"
proof -
  assume h: "has_tag U False (strip_by P s)"
  let ?u = "dropWhile P s"
  let ?r = "rev (takeWhile P (rev ?u))"
  have "?r = [] \<or> \<not> isword U (hd ?r)"
  proof (cases "?r = []")
    case False
    then have "hd ?r \<in> set (takeWhile P (rev ?u))" by (metis hd_in_set set_rev)
    then have "P (hd ?r)" by (rule set_takeWhileD [THEN conjunct2])
    from P [OF this] show ?thesis by simp
  qed simp
  from has_tag_append [OF this, of pw "strip_by P s" for pw] h
  have "has_tag U False (rev (dropWhile P (rev ?u)) @ ?r)" by (simp add: strip_by_def)
  then have "has_tag U False ?u" by (simp only: rstrip_decomp)
  from has_tag_dropWhile [OF U P this] show ?thesis by simp
qed


lemma squeeze_nonspace: "\<not> isspace c \<Longrightarrow> squeeze (c # cs) = c # squeeze cs"
  by simp

lemma squeeze_Nil_iff: "squeeze s = [] \<longleftrightarrow> s = []"
  by (cases s) auto

lemma word_after_squeeze: "db_words U \<Longrightarrow> word_after U (squeeze s) = word_after U s"
  by (cases s) (auto simp: word_after_def db_words_ws isspace_def)

lemma tag_here_squeeze:
  assumes U: "db_words U" and th: "tag_here U pw (squeeze s)"
  shows "tag_here U pw s"
proof -
  from tag_hereD [OF U th] obtain a b t where
    q: "squeeze s = a # b # t" and w: "isword U a" "isword U b" and tp: "tag_pair U a b"
    and wa: "\<not> word_after U t" and pw: "\<not> pw" by auto
  have na: "\<not> isspace a" and nb: "\<not> isspace b" using w db_words_ws [OF U] by auto
  have w32: "\<not> isword U 32" using db_words_ws [OF U, of 32] by (simp add: isspace_def)
  from q obtain c cs where s: "s = c # cs" by (cases s) auto
  have c: "\<not> (isspace c \<and> cs \<noteq> [] \<and> isspace (hd cs))"
    using q s w w32 by auto
  with q s have ac: "a = c" and q2: "squeeze cs = b # t" by auto
  from q2 obtain d ds where cs: "cs = d # ds" by (cases cs) auto
  have d: "\<not> (isspace d \<and> ds \<noteq> [] \<and> isspace (hd ds))"
    using q2 cs w w32 by auto
  with q2 cs have bd: "b = d" and t: "t = squeeze ds" by auto
  from wa t have "\<not> word_after U ds" by (simp add: word_after_squeeze [OF U])
  with s cs ac bd tp w pw show ?thesis by (simp add: tag_here_def)
qed

lemma has_tag_squeeze:
  assumes U: "db_words U"
  shows "has_tag U pw (squeeze s) \<Longrightarrow> has_tag U pw s"
proof (induction s arbitrary: pw rule: squeeze.induct)
  case 1
  then show ?case by simp
next
  case (2 c cs)
  have w32: "\<not> isword U 32" using db_words_ws [OF U, of 32] by (simp add: isspace_def)
  show ?case
  proof (cases "isspace c \<and> cs \<noteq> [] \<and> isspace (hd cs)")
    case True
    with "2.prems" have "has_tag U False (squeeze (dropWhile isspace cs))"
      by (simp add: tag_here_nonword [OF U w32] w32)
    from "2.IH"(1) [OF True this] have "has_tag U False (dropWhile isspace cs)" .
    from has_tag_dropWhile [OF U db_words_ws [OF U] this] have "has_tag U False cs" .
    with True show ?thesis by (simp add: tag_here_nonword [OF U db_words_ws [OF U]] db_words_ws [OF U])
  next
    case False
    then have e: "squeeze (c # cs) = c # squeeze cs" by auto
    from "2.prems" e have "tag_here U pw (squeeze (c # cs)) \<or> has_tag U (isword U c) (squeeze cs)"
      by simp
    then show ?thesis
    proof
      assume "tag_here U pw (squeeze (c # cs))"
      from tag_here_squeeze [OF U this] show ?thesis by simp
    next
      assume "has_tag U (isword U c) (squeeze cs)"
      from "2.IH"(2) [OF False this] show ?thesis by simp
    qed
  qed
qed

lemma clean_value_remove_tags_eq:
  "clean_value_remove_tags U val =
     (if strip val = [] then []
      else strip (squeeze (strip_chars seps (squeeze (del_tags U False (strip val))))))"
  by (simp add: clean_value_remove_tags_def Let_def re_sub_def re_sub_TAG re_sub_WS2
      word_before_def seps_def)

lemma seps_nonword: "db_words U \<Longrightarrow> c \<in> set seps \<Longrightarrow> \<not> isword U c"
  by (simp add: db_words_def)

lemma has_tag_strip_chars:
  assumes U: "db_words U" and a: "has_tag U False (strip_chars seps t)"
  shows "has_tag U False t"
  using has_tag_strip_by [where P = "\<lambda>c. c \<in> set seps" and U = U and s = t,
      OF U seps_nonword [OF U] a [unfolded strip_chars_def]] .

lemma has_tag_strip:
  assumes U: "db_words U" and a: "has_tag U False (strip t)"
  shows "has_tag U False t"
  using has_tag_strip_by [where P = isspace and U = U and s = t,
      OF U db_words_ws [OF U] a [unfolded strip_def]] .

lemma no_tag_clean:
  assumes U: "db_words U"
  shows "\<not> has_tag U False (clean_value_remove_tags U x)"
proof (cases "strip x = []")
  case True
  then show ?thesis by (simp add: clean_value_remove_tags_eq)
next
  case False
  let ?s1 = "del_tags U False (strip x)"
  have 1: "\<not> has_tag U False ?s1" by (rule no_tag_del_tags [OF U])
  have 2: "\<not> has_tag U False (squeeze ?s1)"
    by (rule contrapos_nn [OF 1]) (rule has_tag_squeeze [OF U])
  have 3: "\<not> has_tag U False (strip_chars seps (squeeze ?s1))"
    by (rule contrapos_nn [OF 2]) (rule has_tag_strip_chars [OF U])
  have 4: "\<not> has_tag U False (squeeze (strip_chars seps (squeeze ?s1)))"
    by (rule contrapos_nn [OF 3]) (rule has_tag_squeeze [OF U])
  have 5: "\<not> has_tag U False (strip (squeeze (strip_chars seps (squeeze ?s1))))"
    by (rule contrapos_nn [OF 4]) (rule has_tag_strip [OF U])
  with False show ?thesis by (simp add: clean_value_remove_tags_eq)
qed


lemma strip_by_id: "s = [] \<or> (\<not> P (hd s) \<and> \<not> P (last s)) \<Longrightarrow> strip_by P s = s"
proof (cases s)
  case Nil
  then show ?thesis by (simp add: strip_by_def)
next
  case (Cons a t)
  assume "s = [] \<or> (\<not> P (hd s) \<and> \<not> P (last s))"
  with Cons have h: "\<not> P a" and l: "\<not> P (last s)" by auto
  from h Cons have d: "dropWhile P s = s" by simp
  from Cons have "rev s \<noteq> []" by simp
  then obtain b u where r: "rev s = b # u" by (cases "rev s") auto
  then have "b = last s" by (metis hd_rev list.sel(1))
  with l have "dropWhile P (b # u) = b # u" by simp
  then have "dropWhile P (rev s) = rev s" by (simp only: r)
  with d show ?thesis by (simp add: strip_by_def)
qed

lemma strip_by_ends:
  "strip_by P s = [] \<or> (\<not> P (hd (strip_by P s)) \<and> \<not> P (last (strip_by P s)))"
proof (cases "strip_by P s = []")
  case False
  let ?u = "dropWhile P s"
  let ?v = "dropWhile P (rev ?u)"
  have v: "?v \<noteq> []" using False by (simp add: strip_by_def)
  then have hv: "\<not> P (hd ?v)" by (rule hd_dropWhile)
  have "last (strip_by P s) = hd ?v" by (simp add: strip_by_def last_rev)
  with hv have l: "\<not> P (last (strip_by P s))" by simp
  have u: "?u \<noteq> []"
  proof
    assume a: "?u = []"
    have "?v = []" by (simp only: a rev.simps dropWhile.simps)
    with v show False by (rule notE)
  qed
  then have hu: "\<not> P (hd ?u)" by (rule hd_dropWhile)
  have "rev ?v @ rev (takeWhile P (rev ?u)) = ?u" by (rule rstrip_decomp)
  moreover have "hd (rev ?v @ rev (takeWhile P (rev ?u))) = hd (rev ?v)"
    by (rule hd_append2) (use v in \<open>simp only: rev_is_Nil_conv not_False_eq_True\<close>)
  ultimately have "hd ?u = hd (rev ?v)" by simp
  with hu have "\<not> P (hd (strip_by P s))" by (simp add: strip_by_def)
  with l show ?thesis by simp
qed simp

lemma set_strip_by: "set (strip_by P s) \<subseteq> set s"
proof -
  have a: "set (dropWhile P t) \<subseteq> set t" for t :: ustr
    by (meson set_dropWhileD subsetI)
  have "set (strip_by P s) = set (dropWhile P (rev (dropWhile P s)))"
    by (simp only: strip_by_def set_rev)
  also have "\<dots> \<subseteq> set (rev (dropWhile P s))" by (rule a)
  also have "\<dots> = set (dropWhile P s)" by (rule set_rev)
  also have "\<dots> \<subseteq> set s" by (rule a)
  finally show ?thesis .
qed

lemma set_del_tags: "set (del_tags U pw s) \<subseteq> set s"
  by (induction U pw s rule: del_tags.induct) auto

lemma set_squeeze: "set (squeeze s) \<subseteq> insert 32 (set s)"
proof (induction s rule: squeeze.induct)
  case 1
  show ?case by simp
next
  case (2 c cs)
  show ?case
  proof (cases "isspace c \<and> cs \<noteq> [] \<and> isspace (hd cs)")
    case True
    from "2.IH"(1) [OF True] set_dropWhileD [of _ isspace cs] True show ?thesis by auto
  next
    case False
    from "2.IH"(2) [OF False] False show ?thesis by auto
  qed
qed

lemma hd_squeeze: "s \<noteq> [] \<Longrightarrow> \<not> isspace (hd s) \<Longrightarrow> hd (squeeze s) = hd s"
  by (cases s) auto

lemma last_squeeze: "s \<noteq> [] \<Longrightarrow> \<not> isspace (last s) \<Longrightarrow> last (squeeze s) = last s"
proof (induction s rule: squeeze.induct)
  case 1
  then show ?case by simp
next
  case (2 c cs)
  show ?case
  proof (cases "isspace c \<and> cs \<noteq> [] \<and> isspace (hd cs)")
    case True
    define d where "d = dropWhile isspace cs"
    have e: "squeeze (c # cs) = 32 # squeeze d" using True by (simp add: d_def)
    have d: "d \<noteq> []"
    proof
      assume "d = []"
      then have "\<forall>x\<in>set cs. isspace x" by (simp add: d_def dropWhile_eq_Nil_conv)
      with True "2.prems" show False by simp
    qed
    have "takeWhile isspace cs @ d = cs" by (simp add: d_def)
    then have lc: "last cs = last d" using d by (metis last_appendR)
    have "last (c # cs) = last cs" using True by simp
    with lc "2.prems" have nd: "\<not> isspace (last d)" and ll: "last (c # cs) = last d" by simp_all
    from "2.IH"(1) [OF True, folded d_def, OF d nd] have "last (squeeze d) = last d" .
    with d have "last (32 # squeeze d) = last d" by (simp add: squeeze_Nil_iff)
    with e ll show ?thesis by simp
  next
    case False
    show ?thesis
    proof (cases "cs = []")
      case True
      then show ?thesis by simp
    next
      case ne: False
      with "2.IH"(2) [OF False ne] "2.prems" False show ?thesis
        by (auto simp: squeeze_Nil_iff)
    qed
  qed
qed

lemma ws2_free_Cons:
  "ws2_free (c # t) = (t = [] \<or> (\<not> (isspace c \<and> isspace (hd t)) \<and> ws2_free t))"
  by (cases t) auto

lemma isspace_hd_squeeze: "cs \<noteq> [] \<Longrightarrow> isspace (hd (squeeze cs)) = isspace (hd cs)"
  by (cases cs) (auto simp: isspace_def)

lemma ws2_free_squeeze: "ws2_free (squeeze s)"
proof (induction s rule: squeeze.induct)
  case 1
  show ?case by simp
next
  case (2 c cs)
  show ?case
  proof (cases "isspace c \<and> cs \<noteq> [] \<and> isspace (hd cs)")
    case True
    define d where "d = dropWhile isspace cs"
    have e: "squeeze (c # cs) = 32 # squeeze d" using True by (simp add: d_def)
    have ih: "ws2_free (squeeze d)" using "2.IH"(1) [OF True] by (simp add: d_def)
    show ?thesis
    proof (cases d)
      case Nil
      show ?thesis unfolding e Nil by simp
    next
      case (Cons x xs)
      have "d \<noteq> []" using Cons by simp
      then have "\<not> isspace (hd d)" unfolding d_def by (rule hd_dropWhile)
      with Cons have nx: "\<not> isspace x" by simp
      have "squeeze d = x # squeeze xs" unfolding Cons using nx by simp
      with ih nx show ?thesis unfolding e by simp
    qed
  next
    case False
    then have e: "squeeze (c # cs) = c # squeeze cs" by auto
    have ih: "ws2_free (squeeze cs)" by (rule "2.IH"(2) [OF False])
    show ?thesis
    proof (cases "cs = []")
      case True
      then show ?thesis by simp
    next
      case ne: False
      with False have "\<not> (isspace c \<and> isspace (hd (squeeze cs)))"
        by (simp add: isspace_hd_squeeze)
      with ih ne show ?thesis unfolding e by (simp add: ws2_free_Cons squeeze_Nil_iff)
    qed
  qed
qed

lemma squeeze_id: "ws2_free s \<Longrightarrow> squeeze s = s"
  by (induction s rule: ws2_free.induct) auto

lemma ws2_free_tl: "ws2_free (c # cs) \<Longrightarrow> ws2_free cs"
  by (cases cs) auto

lemma ws2_free_dropWhile: "ws2_free s \<Longrightarrow> ws2_free (dropWhile P s)"
  by (induction s) (auto dest: ws2_free_tl)

lemma ws2_free_prefix: "ws2_free (x @ y) \<Longrightarrow> ws2_free x"
  by (induction x rule: ws2_free.induct) auto

lemma ws2_free_strip_by: "ws2_free s \<Longrightarrow> ws2_free (strip_by P s)"
proof -
  assume "ws2_free s"
  then have "ws2_free (dropWhile P s)" by (rule ws2_free_dropWhile)
  then have "ws2_free (rev (dropWhile P (rev (dropWhile P s))) @ rev (takeWhile P (rev (dropWhile P s))))"
    by (simp only: rstrip_decomp)
  then show ?thesis unfolding strip_by_def by (rule ws2_free_prefix)
qed

lemma clean_fixed_point:
  assumes U: "db_words U"
    and r: "r = clean_value_remove_tags U x"
    and e: "r = [] \<or> (hd r \<notin> set seps \<and> last r \<notin> set seps)"
  shows "clean_value_remove_tags U r = r"
proof (cases "r = []")
  case True
  then show ?thesis by (simp add: clean_value_remove_tags_eq strip_def strip_by_def)
next
  case False
  from False r obtain y where y: "r = strip_by isspace (squeeze y)"
    by (auto simp: clean_value_remove_tags_eq strip_def split: if_splits)
  have ends: "\<not> isspace (hd r) \<and> \<not> isspace (last r)"
    using False strip_by_ends [of isspace "squeeze y"] by (simp add: y [symmetric])
  have s: "strip r = r" unfolding strip_def by (rule strip_by_id) (simp add: ends)
  have nt: "\<not> has_tag U False r" unfolding r by (rule no_tag_clean [OF U])
  have d: "del_tags U False r = r" using nt by (rule del_tags_id)
  have "ws2_free r" unfolding y by (rule ws2_free_strip_by [OF ws2_free_squeeze])
  then have q: "squeeze r = r" by (rule squeeze_id)
  have c: "strip_chars seps r = r" unfolding strip_chars_def
    by (rule strip_by_id) (use e False in simp)
  show ?thesis using False by (simp add: clean_value_remove_tags_eq s d q c)
qed

lemma clean_ends_plain_space:
  assumes x: "\<forall>c\<in>set x. isspace c \<longrightarrow> c = 32"
    and r: "r = clean_value_remove_tags U x"
  shows "r = [] \<or> (hd r \<notin> set seps \<and> last r \<notin> set seps)"
proof (cases "strip x = []")
  case True
  with r show ?thesis by (simp add: clean_value_remove_tags_eq)
next
  case False
  let ?s2 = "squeeze (del_tags U False (strip x))"
  let ?s3 = "strip_chars seps ?s2"
  have r': "r = strip (squeeze ?s3)" using r False by (simp add: clean_value_remove_tags_eq)
  have a: "set (strip x) \<subseteq> set x" unfolding strip_def by (rule set_strip_by)
  have b: "set (del_tags U False (strip x)) \<subseteq> set x"
    by (rule subset_trans [OF set_del_tags a])
  have c: "set ?s2 \<subseteq> insert 32 (set x)"
    by (rule subset_trans [OF set_squeeze insert_mono [OF b]])
  have d: "set ?s3 \<subseteq> set ?s2" unfolding strip_chars_def by (rule set_strip_by)
  have ws: "\<forall>c\<in>set ?s3. isspace c \<longrightarrow> c = 32"
  proof (intro ballI impI)
    fix c assume "c \<in> set ?s3" and sp: "isspace c"
    with d c have "c = 32 \<or> c \<in> set x" by blast
    with x sp show "c = 32" by blast
  qed
  have s32: "32 \<in> set seps" by (simp add: seps_def ascii_def)
  show ?thesis
  proof (cases "?s3 = []")
    case True
    then show ?thesis by (simp add: r' strip_def strip_by_def)
  next
    case ne: False
    from strip_by_ends [of "\<lambda>c. c \<in> set seps" ?s2] ne
    have e3: "hd ?s3 \<notin> set seps" "last ?s3 \<notin> set seps" by (auto simp: strip_chars_def)
    have "hd ?s3 \<in> set ?s3" "last ?s3 \<in> set ?s3" using ne by auto
    with ws e3 s32 have n3: "\<not> isspace (hd ?s3)" "\<not> isspace (last ?s3)" by auto
    have h4: "hd (squeeze ?s3) = hd ?s3" using ne n3 by (intro hd_squeeze)
    have l4: "last (squeeze ?s3) = last ?s3" using ne n3 by (intro last_squeeze)
    have "strip_by isspace (squeeze ?s3) = squeeze ?s3"
      by (rule strip_by_id) (simp add: h4 l4 n3)
    then have "r = squeeze ?s3" by (simp only: r' strip_def)
    with h4 l4 e3 show ?thesis by simp
  qed
qed

lemma lt_lower1_eq_ascii_lower:
  "lt_lower1 c = p \<Longrightarrow> p < 128 \<Longrightarrow> 97 \<le> p \<Longrightarrow> p \<le> 122 \<Longrightarrow> c = p \<or> c + 32 = p"
  by (auto simp: lt_lower1_def lt_upper_def split: if_splits)

lemma db_words_lt_db: "db_words lt_db"
  unfolding db_words_def
proof (intro conjI allI impI)
  fix c assume "isspace c"
  then show "\<not> isword lt_db c"
    by (auto simp: isspace_def isword_def lt_db_simps lt_isalnum_def lt_upper_def)
next
  fix c assume "c \<in> set seps"
  then show "\<not> isword lt_db c"
    by (auto simp: seps_def ascii_def isword_def lt_db_simps lt_isalnum_def lt_upper_def)
next
  fix c assume "re_ci lt_db 80 c \<or> re_ci lt_db 82 c \<or> re_ci lt_db 73 c \<or> re_ci lt_db 78 c"
  then have "lt_lower1 c = 112 \<or> lt_lower1 c = 114 \<or> lt_lower1 c = 105 \<or> lt_lower1 c = 110"
    by (simp add: lt_db_simps lt_lower1_def)
  then have "c \<in> {112, 80, 114, 82, 105, 73, 110, 78}"
    using lt_lower1_eq_ascii_lower [of c] by auto
  then show "isword lt_db c"
    by (auto simp: isword_def lt_db_simps lt_isalnum_def)
qed

lemmas clean_eval = clean_value_remove_tags_eq str_defs seps_def tag_here_def tag_pair_def
  word_after_def isword_def lt_db_simps lt_lower1_def lt_isalnum_def lt_upper_def

lemma rmatch_lits_ci:
  "rmatch U (lits_ci U n) (p, s, g) =
     (if ci_prefix U n s then [(ctx_after p (take (length n) s), drop (length n) s, g)] else [])"
proof (induction n arbitrary: p s)
  case Nil
  show ?case by (simp add: lits_ci_def ci_prefix_def ctx_after_def)
next
  case (Cons a n)
  have e: "lits_ci U (a # n) = Seq (Lit (re_ci U a)) (lits_ci U n)" by (simp add: lits_ci_def)
  show ?case
  proof (cases s)
    case Nil
    then show ?thesis by (simp add: e ci_prefix_def)
  next
    case (Cons c cs)
    show ?thesis
    proof (cases "re_ci U a c")
      case True
      have "ctx_after (Some c) (take (length n) cs) = ctx_after p (c # take (length n) cs)"
        by (simp add: ctx_after_def)
      with True Cons Cons.IH [of "Some c" cs] show ?thesis
        by (simp add: e ci_prefix_def)
    next
      case False
      with Cons show ?thesis by (simp add: e ci_prefix_def)
    qed
  qed
qed

lemma rmatch_Alt_Nil: "rmatch U (Alt a b) st = [] \<longleftrightarrow> rmatch U a st = [] \<and> rmatch U b st = []"
  by simp

lemma rmatch_ACH_LVL_VAL_Some: "rmatch U (ACH_LVL_VAL_RE U) (Some c, s, g) = []"
  by (simp add: ACH_LVL_VAL_RE_def)

lemma word_before_ctx_after:
  "n \<noteq> [] \<Longrightarrow> length n \<le> length s \<Longrightarrow>
   word_before U (ctx_after p (take (length n) s)) = isword U (s ! (length n - 1))"
proof -
  assume n: "n \<noteq> []" and l: "length n \<le> length s"
  then have t: "take (length n) s \<noteq> []" by auto
  have ln: "length (take (length n) s) = length n" using l by simp
  have "length n - 1 < length n" using n by (cases n) simp_all
  then have "take (length n) s ! (length n - 1) = s ! (length n - 1)" by (rule nth_take)
  with last_conv_nth [OF t] ln have "last (take (length n) s) = s ! (length n - 1)"
    by (simp only:)
  with t show ?thesis by (simp add: ctx_after_def word_before_def)
qed

lemma rmatch_name_Wb:
  assumes "n \<noteq> []"
  shows "concat (map (rmatch U Wb) (map (\<lambda>(p', s', g'). (p', s', g' @ [take (length s - length s') s]))
           (rmatch U (lits_ci U n) (None, s, g)))) = [] \<longleftrightarrow>
         \<not> (ci_prefix U n s \<and> isword U (s ! (length n - 1)) \<noteq> word_after U (drop (length n) s))"
proof (cases "ci_prefix U n s")
  case True
  then have l: "length n \<le> length s" by (simp add: ci_prefix_def)
  from True show ?thesis
    by (simp add: rmatch_lits_ci word_before_ctx_after [OF assms l])
next
  case False
  then show ?thesis by (simp add: rmatch_lits_ci)
qed

lemma rmatch_ACH_LVL_VAL:
  "rmatch U (ACH_LVL_VAL_RE U) (None, s, []) = [] \<longleftrightarrow> \<not> level_value U s"
proof -
  have ne: "level_names ! 0 \<noteq> []" "level_names ! 1 \<noteq> []" "level_names ! 2 \<noteq> []" "level_names ! 3 \<noteq> []"
    by (simp_all add: level_names_def ascii_def)
  have ln: "level_names = [level_names ! 0, level_names ! 1, level_names ! 2, level_names ! 3]"
    by (simp add: level_names_def)
  have re: "ACH_LVL_VAL_RE U =
     Seq Bol (Seq (Grp (Alt (lits_ci U (level_names ! 0)) (Alt (lits_ci U (level_names ! 1))
       (Alt (lits_ci U (level_names ! 2)) (lits_ci U (level_names ! 3)))))) Wb)"
    by (simp add: ACH_LVL_VAL_RE_def level_names_def)
  have lv: "level_value U s \<longleftrightarrow>
     (\<exists>n \<in> {level_names ! 0, level_names ! 1, level_names ! 2, level_names ! 3}.
        ci_prefix U n s \<and> isword U (s ! (length n - 1)) \<noteq> word_after U (drop (length n) s))"
    unfolding level_value_def by (subst ln) (simp add: list_ex_iff del: One_nat_def)
  show ?thesis
    unfolding lv
    using rmatch_name_Wb [OF ne(1), of U s "[]"] rmatch_name_Wb [OF ne(2), of U s "[]"]
      rmatch_name_Wb [OF ne(3), of U s "[]"] rmatch_name_Wb [OF ne(4), of U s "[]"]
    by (simp add: re del: One_nat_def)
qed

lemma re_search_from_anchored:
  assumes "\<And>c s g. rmatch U r (Some c, s, g) = []"
  shows "re_search_from U r (Some c) s = None"
  by (induction s arbitrary: c) (simp_all add: assms)

lemma re_search_ACH_LVL_VAL:
  "re_search U (ACH_LVL_VAL_RE U) s = None \<longleftrightarrow> \<not> level_value U s"
proof (cases s)
  case Nil
  then show ?thesis
    using rmatch_ACH_LVL_VAL [of U "[]"] by (auto simp: re_search_def split: list.splits)
next
  case (Cons c cs)
  have "re_search_from U (ACH_LVL_VAL_RE U) (Some c) cs = None"
    by (rule re_search_from_anchored) (rule rmatch_ACH_LVL_VAL_Some)
  with Cons show ?thesis
    using rmatch_ACH_LVL_VAL [of U "c # cs"] by (auto simp: re_search_def split: list.splits)
qed

lemma filter_index_single:
  assumes "i < n" and "\<And>j. j < n \<Longrightarrow> P j \<longleftrightarrow> j = i"
  shows "filter P [0 ..< n] = [i]"
proof -
  have "filter P [0 ..< n] = filter (\<lambda>j. j = i) [0 ..< n]"
    by (rule filter_cong) (use assms in auto)
  also have "\<dots> = [i]"
  proof -
    have "[0 ..< n] = [0 ..< i] @ i # [Suc i ..< n]"
      using assms(1) by (metis le0 upt_conv_Cons upt_add_eq_append le_add_diff_inverse less_imp_le_nat)
    then show ?thesis by (simp add: filter_empty_conv)
  qed
  finally show ?thesis .
qed

lemma distinct_filter_nth:
  "distinct (filter P xs) \<Longrightarrow> i < length xs \<Longrightarrow> j < length xs \<Longrightarrow> P (xs ! i) \<Longrightarrow>
   xs ! j = xs ! i \<Longrightarrow> j = i"
proof (induction xs arbitrary: i j)
  case Nil
  then show ?case by simp
next
  case (Cons a xs)
  show ?case
  proof (cases i)
    case 0
    show ?thesis
    proof (cases j)
      case 0
      with \<open>i = 0\<close> show ?thesis by simp
    next
      case (Suc j')
      with 0 Cons.prems have "a \<in> set xs" "P a" "a \<notin> set (filter P xs)" by auto
      then show ?thesis by simp
    qed
  next
    case (Suc i')
    show ?thesis
    proof (cases j)
      case 0
      with Suc Cons.prems have "a \<in> set xs" "P a" "a \<notin> set (filter P xs)"
        by (auto split: if_splits)
      then show ?thesis by simp
    next
      case (Suc j')
      with \<open>i = Suc i'\<close> Cons.prems have "j' = i'"
        by (intro Cons.IH) (auto split: if_splits)
      with Suc \<open>i = Suc i'\<close> show ?thesis by simp
    qed
  qed
qed

lemma label_position_nth:
  assumes "distinct (subject_labels T)" "i < length (columns T)"
    "columns T ! i \<noteq> col_nr" "columns T ! i \<noteq> col_name"
  shows "label_position T (columns T ! i) = Inr i"
proof -
  have "filter (\<lambda>j. columns T ! j = columns T ! i) [0 ..< length (columns T)] = [i]"
  proof (rule filter_index_single [OF assms(2)])
    fix j assume j: "j < length (columns T)"
    show "(columns T ! j = columns T ! i) = (j = i)"
      using distinct_filter_nth [OF assms(1) [unfolded subject_labels_def] assms(2) j] assms(3,4)
      by auto
  qed
  then show ?thesis by (simp add: label_position_def label_positions_def)
qed

lemma row_get_nth:
  assumes "distinct (subject_labels T)" "i < length (columns T)"
    "columns T ! i \<noteq> col_nr" "columns T ! i \<noteq> col_name"
  shows "row_get T row (columns T ! i) = Inr (row ! i)"
  by (simp add: row_get_def label_position_nth [OF assms])

lemma dict_set_new: "k \<notin> fst ` set d \<Longrightarrow> dict_set d k v = d @ [(k, v)]"
  by (induction d) auto

lemma subjects_loop_step:
  assumes "row_get T row col = Inr v" and "col \<notin> fst ` set acc"
  shows "subjects_loop U T row (col # cols) acc =
         subjects_loop U T row cols
           (acc @ (if col \<noteq> col_nr \<and> col \<noteq> col_name \<and> \<not> excluded U v
                   then [(col, clean_value_remove_tags U (strip (str_of v)))] else []))"
  using assms
  by (auto simp: excluded_def Let_def re_search_ACH_LVL_VAL dict_set_new)

lemma subjects_loop_suffix:
  assumes d: "distinct (subject_labels T)"
  shows "columns T = pre @ cols \<Longrightarrow> fst ` set acc \<subseteq> set pre \<Longrightarrow>
         subjects_loop U T row cols acc =
           Inr (acc @ subject_entries U T row [length pre ..< length (columns T)])"
proof (induction cols arbitrary: pre acc)
  case Nil
  then show ?case by (simp add: subject_entries_def)
next
  case (Cons col cols)
  let ?i = "length pre"
  have i: "?i < length (columns T)" using Cons.prems(1) by simp
  have c: "columns T ! ?i = col" using Cons.prems(1) by simp
  have up: "[?i ..< length (columns T)] = ?i # [length (pre @ [col]) ..< length (columns T)]"
    using i by (simp add: upt_conv_Cons)
  have p1: "columns T = (pre @ [col]) @ cols" using Cons.prems(1) by simp
  show ?case
  proof (cases "col = col_nr \<or> col = col_name")
    case True
    have p2: "fst ` set acc \<subseteq> set (pre @ [col])" using Cons.prems(2) by auto
    have "subjects_loop U T row (col # cols) acc = subjects_loop U T row cols acc"
      using True by auto
    also have "\<dots> = Inr (acc @ subject_entries U T row [length (pre @ [col]) ..< length (columns T)])"
      by (rule Cons.IH [OF p1 p2])
    also have "subject_entries U T row [length (pre @ [col]) ..< length (columns T)] =
               subject_entries U T row [?i ..< length (columns T)]"
      unfolding up using True c by (auto simp: subject_entries_def)
    finally show ?thesis .
  next
    case False
    then have f: "columns T ! ?i \<noteq> col_nr" "columns T ! ?i \<noteq> col_name" using c by auto
    have g: "row_get T row col = Inr (row ! ?i)" using row_get_nth [OF d i f, of row] c by simp
    have n: "col \<notin> fst ` set acc"
    proof
      assume "col \<in> fst ` set acc"
      with Cons.prems(2) have "col \<in> set pre" by blast
      then obtain j where j: "j < length pre" "pre ! j = col" by (auto simp: in_set_conv_nth)
      then have "columns T ! j = columns T ! ?i" using Cons.prems(1) c by (simp add: nth_append)
      moreover have "j < length (columns T)" using j i by simp
      ultimately have "j = ?i"
        using distinct_filter_nth [OF d [unfolded subject_labels_def] i, of j] f by auto
      with j show False by simp
    qed
    let ?new = "if col \<noteq> col_nr \<and> col \<noteq> col_name \<and> \<not> excluded U (row ! ?i)
                   then [(col, clean_value_remove_tags U (strip (str_of (row ! ?i))))] else []"
    have p2: "fst ` set (acc @ ?new) \<subseteq> set (pre @ [col])" using Cons.prems(2) by auto
    have "subjects_loop U T row (col # cols) acc = subjects_loop U T row cols (acc @ ?new)"
      by (rule subjects_loop_step [OF g n])
    also have "\<dots> = Inr ((acc @ ?new) @ subject_entries U T row [length (pre @ [col]) ..< length (columns T)])"
      by (rule Cons.IH [OF p1 p2])
    also have "(acc @ ?new) @ subject_entries U T row [length (pre @ [col]) ..< length (columns T)] =
               acc @ subject_entries U T row [?i ..< length (columns T)]"
      unfolding up using c by (simp add: subject_entries_def)
    finally show ?thesis .
  qed
qed

lemma subjects_loop_eq:
  assumes d: "distinct (subject_labels T)"
  shows "subjects_loop U T row (columns T) [] = Inr (cleaned_subjects U T row)"
  using subjects_loop_suffix [OF d, of "[]" "columns T" "[]" U row]
  by (simp add: subject_entries_def cleaned_subjects_def)

lemma label_positions_ne: "c \<in> set (columns T) \<Longrightarrow> label_positions T c \<noteq> []"
  by (auto simp: label_positions_def filter_empty_conv in_set_conv_nth)

lemma subjects_loop_dup:
  assumes "set cols \<subseteq> set (columns T)"
    and "\<exists>c\<in>set cols. c \<noteq> col_nr \<and> c \<noteq> col_name \<and> 2 \<le> length (label_positions T c)"
  shows "subjects_loop U T row cols acc = Inl DuplicateLabel"
  using assms
proof (induction cols arbitrary: acc)
  case Nil
  then show ?case by simp
next
  case (Cons col cols)
  show ?case
  proof (cases "col \<noteq> col_nr \<and> col \<noteq> col_name \<and> 2 \<le> length (label_positions T col)")
    case True
    then obtain a b r where "label_positions T col = a # b # r"
      by (cases "label_positions T col"; cases "tl (label_positions T col)") auto
    with True show ?thesis by (simp add: row_get_def label_position_def)
  next
    case False
    with Cons.prems have ex: "\<exists>c\<in>set cols. c \<noteq> col_nr \<and> c \<noteq> col_name \<and> 2 \<le> length (label_positions T c)"
      by auto
    have sub: "set cols \<subseteq> set (columns T)" using Cons.prems by auto
    note ih = Cons.IH [OF sub ex]
    show ?thesis
    proof (cases "col = col_nr \<or> col = col_name")
      case True
      then show ?thesis using ih by auto
    next
      case nf: False
      with False have "\<not> 2 \<le> length (label_positions T col)" by simp
      moreover have "label_positions T col \<noteq> []"
        by (rule label_positions_ne) (use Cons.prems in auto)
      ultimately obtain i where "label_positions T col = [i]"
        by (cases "label_positions T col"; cases "tl (label_positions T col)") auto
      then have "row_get T row col = Inr (row ! i)" by (simp add: row_get_def label_position_def)
      with nf show ?thesis by (simp add: ih Let_def)
    qed
  qed
qed

lemma not_distinct_twice:
  "\<not> distinct ys \<Longrightarrow> \<exists>c\<in>set ys. 2 \<le> length (filter (\<lambda>x. x = c) ys)"
proof (induction ys)
  case Nil
  then show ?case by simp
next
  case (Cons a ys)
  show ?case
  proof (cases "a \<in> set ys")
    case True
    then have "filter (\<lambda>x. x = a) ys \<noteq> []" by (auto simp: filter_empty_conv)
    then have "1 \<le> length (filter (\<lambda>x. x = a) ys)" by (cases "filter (\<lambda>x. x = a) ys") auto
    then show ?thesis by auto
  next
    case False
    with Cons.prems have "\<not> distinct ys" by simp
    from Cons.IH [OF this] obtain c where "c \<in> set ys" "2 \<le> length (filter (\<lambda>x. x = c) ys)" by blast
    then show ?thesis by (intro bexI [of _ c]) auto
  qed
qed

lemma length_label_positions:
  "length (label_positions T c) = length (filter (\<lambda>x. x = c) (columns T))"
proof -
  have "filter (\<lambda>x. x = c) (map (\<lambda>i. columns T ! i) [0 ..< length (columns T)]) =
        map (\<lambda>i. columns T ! i) (filter ((\<lambda>x. x = c) \<circ> (\<lambda>i. columns T ! i)) [0 ..< length (columns T)])"
    by (rule filter_map)
  then have "length (filter (\<lambda>x. x = c) (columns T)) =
        length (filter ((\<lambda>x. x = c) \<circ> (\<lambda>i. columns T ! i)) [0 ..< length (columns T)])"
    by (simp add: map_nth)
  then show ?thesis by (simp add: label_positions_def comp_def)
qed

lemma subjects_loop_error:
  assumes "\<not> distinct (subject_labels T)"
  shows "subjects_loop U T row (columns T) [] = Inl DuplicateLabel"
proof -
  from not_distinct_twice [OF assms] obtain c where c: "c \<in> set (subject_labels T)"
    and l: "2 \<le> length (filter (\<lambda>x. x = c) (subject_labels T))" by blast
  from c have p: "c \<noteq> col_nr" "c \<noteq> col_name" "c \<in> set (columns T)" by (auto simp: subject_labels_def)
  have "filter (\<lambda>x. x = c) (subject_labels T) = filter (\<lambda>x. x = c) (columns T)"
    unfolding subject_labels_def filter_filter by (rule filter_cong) (use p in auto)
  with l have "2 \<le> length (label_positions T c)" by (simp add: length_label_positions)
  with p show ?thesis by (intro subjects_loop_dup) auto
qed

lemmas lt_eval = str_defs lt_db_simps lt_lower1_def lt_isalnum_def lt_upper_def isword_def
  word_after_def

lemmas level_eval = level_value_def starts_with_level_def level_names_def ci_prefix_def

lemma ex_excluded:
  "\<not> excluded lt_db (Str (ascii ''9 PR''))" "excluded lt_db (Str (ascii ''Patenkinamas''))"
  "\<not> excluded lt_db (Str (ascii ''Pagrindinis_lygis''))"
  "clean_value_remove_tags lt_db (ascii ''9 PR'') = ascii ''9''"
  "clean_value_remove_tags lt_db (ascii ''Pagrindinis_lygis'') = ascii ''Pagrindinis_lygis''"
  by (simp_all add: excluded_def level_eval clean_eval)

lemma ex_levels:
  "excluded lt_db (Str (ascii ''Slenkstinis''))" "excluded lt_db (Str (ascii ''Patenkinamas''))"
  "excluded lt_db (Str (ascii ''Pagrindinis''))"
  "excluded lt_db (Str (ascii ''Auk'' @ [0x161] @ ascii ''tesnysis''))"
  "excluded lt_db (Str (ascii '' PAGRINDINIS lygis''))"
  by (simp_all add: excluded_def level_eval clean_eval)

lemma ex_labels:
  "ascii ''Matematika'' \<noteq> col_nr" "ascii ''Matematika'' \<noteq> col_name"
  "ascii ''Lygis'' \<noteq> col_nr" "ascii ''Lygis'' \<noteq> col_name"
  "ascii ''Etika'' \<noteq> col_nr" "ascii ''Etika'' \<noteq> col_name" "col_nr \<noteq> col_name"
  "ascii ''Matematika'' \<noteq> ascii ''Lygis''" "ascii ''Matematika'' \<noteq> ascii ''Etika''"
  "ascii ''Lygis'' \<noteq> ascii ''Etika''"
  by (simp_all add: col_nr_def col_name_def ascii_def)

lemma ex_strip:
  "strip (ascii ''9 PR'') = ascii ''9 PR''" "strip (ascii ''Patenkinamas'') = ascii ''Patenkinamas''"
  "strip (ascii ''Pagrindinis_lygis'') = ascii ''Pagrindinis_lygis''"
  by (simp_all add: str_defs)

lemma ex_cleaned:
  "distinct (subject_labels ex_table)"
  "cleaned_subjects lt_db ex_table ex_row =
     [(ascii ''Matematika'', ascii ''9''), (ascii ''Etika'', ascii ''Pagrindinis_lygis'')]"
  "distinct (subject_labels ex_table_nr)"
  "cleaned_subjects lt_db ex_table_nr (Obj (ascii ''7'') # ex_row) =
     [(ascii ''Matematika'', ascii ''9''), (ascii ''Etika'', ascii ''Pagrindinis_lygis'')]"
  "\<not> distinct (subject_labels ex_table_dup)"
  using ex_excluded ex_strip ex_labels
  by (simp_all add: cleaned_subjects_def subject_labels_def ex_table_def ex_table_nr_def ex_table_dup_def
      ex_columns_def ex_row_def upt_rec)

lemma last_match_Cons:
  "last_match P f d (t # ts) = last_match P f (if P t then f t else d) ts"
  by (cases "filter P ts") (simp_all add: last_match_def)

lemma school_class_step_Str:
  "cells df r c = Str v \<Longrightarrow>
   school_class_step U df (m, k) (r, c) =
     ((if school_text U (strip v) then after_colon (strip v) else m),
      (if class_text U (strip v) then after_colon (strip v) else k))"
  by (simp add: school_class_step_def Let_def school_text_def class_text_def after_colon_def)

lemma school_class_step_other:
  "(\<And>v. cells df r c \<noteq> Str v) \<Longrightarrow> school_class_step U df (m, k) (r, c) = (m, k)"
  by (cases "cells df r c") (auto simp: school_class_step_def)

lemma school_class_foldl:
  "foldl (school_class_step U df) (m, k) ps =
     (last_match (school_text U) after_colon m
        (concat (map (\<lambda>(r, c). case cells df r c of Str v \<Rightarrow> [strip v] | _ \<Rightarrow> []) ps)),
      last_match (class_text U) after_colon k
        (concat (map (\<lambda>(r, c). case cells df r c of Str v \<Rightarrow> [strip v] | _ \<Rightarrow> []) ps)))"
proof (induction ps arbitrary: m k)
  case Nil
  show ?case by (simp add: last_match_def)
next
  case (Cons p ps)
  obtain r c where p: "p = (r, c)" by (cases p)
  show ?case
  proof (cases "cells df r c")
    case (Str v)
    then show ?thesis
      by (simp add: p school_class_step_Str Cons.IH last_match_Cons)
  next
    case NA
    then have "school_class_step U df (m, k) (r, c) = (m, k)"
      by (intro school_class_step_other) simp
    with NA show ?thesis by (simp add: p Cons.IH)
  next
    case (Obj x)
    then have "school_class_step U df (m, k) (r, c) = (m, k)"
      by (intro school_class_step_other) simp
    with Obj show ?thesis by (simp add: p Cons.IH)
  qed
qed

lemma after_colon_split: "58 \<notin> set b \<Longrightarrow> after_colon (b @ 58 # a) = strip a"
proof -
  assume "58 \<notin> set b"
  then have "dropWhile (\<lambda>c. c \<noteq> 58) (b @ 58 # a) = 58 # a"
    by (induction b) auto
  then show ?thesis by (simp add: after_colon_def split1_after_def)
qed

lemma lit_star_then:
  assumes "\<And>p c cs g. P c \<Longrightarrow> rmatch U r (p, c # cs, g) = []"
  shows "concat (map (rmatch U r) (lit_star_states P p s g)) =
         rmatch U r (ctx_after p (takeWhile P s), dropWhile P s, g)"
proof (induction s arbitrary: p)
  case Nil
  show ?case by (simp add: ctx_after_def)
next
  case (Cons c cs)
  show ?case
  proof (cases "P c")
    case True
    with Cons assms [OF True] show ?thesis by (simp add: ctx_after_def)
  next
    case False
    then show ?thesis by (simp add: ctx_after_def)
  qed
qed

lemma rmatch_Seq_Star_Lit:
  assumes "\<And>p c cs g. P c \<Longrightarrow> rmatch U r (p, c # cs, g) = []"
  shows "rmatch U (Seq (Star (Lit P)) r) (p, s, g) =
         rmatch U r (ctx_after p (takeWhile P s), dropWhile P s, g)"
  using lit_star_then [of P U r, OF assms] by (simp add: star_iter_Lit)

lemma rmatch_year_re:
  "rmatch U (year_re U) (p, s, g) =
     (case year4 U s of None \<Rightarrow> [] | Some (y, d, rest) \<Rightarrow> [(Some d, rest, g @ [y])])"
  by (auto simp: year_re_def lit_def re_d_def year4_def split: list.splits)

lemma year4_space: "isspace c \<Longrightarrow> year4 U (c # cs) = None"
  by (auto simp: year4_def isspace_def split: list.splits)

lemma rmatch_year_re_space: "isspace c \<Longrightarrow> rmatch U (year_re U) (p, c # cs, g) = []"
  by (simp add: rmatch_year_re year4_space)

lemma rmatch_dash_space:
  "isspace c \<Longrightarrow> rmatch U (Seq (Lit (\<lambda>c. c = 0x2013 \<or> c = 0x2D)) r) (p, c # cs, g) = []"
  by (auto simp: isspace_def)

lemma rmatch_pat_years_tail2:
  "rmatch U (Seq (Star (Lit isspace)) (year_re U)) (p, s, g) =
     (case year4 U (dropWhile isspace s) of
        None \<Rightarrow> []
      | Some (y, d, rest) \<Rightarrow> [(Some d, rest, g @ [y])])"
proof -
  have "rmatch U (Seq (Star (Lit isspace)) (year_re U)) (p, s, g) =
        rmatch U (year_re U) (ctx_after p (takeWhile isspace s), dropWhile isspace s, g)"
    by (rule rmatch_Seq_Star_Lit) (rule rmatch_year_re_space)
  then show ?thesis by (simp only: rmatch_year_re)
qed

lemma rmatch_dash:
  "rmatch U (Seq (Lit (\<lambda>c. c = 0x2013 \<or> c = 0x2D)) r) (p, s, g) =
     (case s of [] \<Rightarrow> [] | dash # rest2 \<Rightarrow>
        if dash = 0x2013 \<or> dash = 0x2D then rmatch U r (Some dash, rest2, g) else [])"
  by (cases s) simp_all

lemma rmatch_pat_years_tail1:
  "rmatch U (Seq (Star (Lit isspace)) (Seq (Lit (\<lambda>c. c = 0x2013 \<or> c = 0x2D))
        (Seq (Star (Lit isspace)) (year_re U)))) (p, s, g) =
     (case dropWhile isspace s of
        [] \<Rightarrow> []
      | dash # rest2 \<Rightarrow>
          if dash = 0x2013 \<or> dash = 0x2D then
            (case year4 U (dropWhile isspace rest2) of
               None \<Rightarrow> []
             | Some (y, d, rest) \<Rightarrow> [(Some d, rest, g @ [y])])
          else [])"
proof -
  have "rmatch U (Seq (Star (Lit isspace)) (Seq (Lit (\<lambda>c. c = 0x2013 \<or> c = 0x2D))
        (Seq (Star (Lit isspace)) (year_re U)))) (p, s, g) =
      rmatch U (Seq (Lit (\<lambda>c. c = 0x2013 \<or> c = 0x2D)) (Seq (Star (Lit isspace)) (year_re U)))
       (ctx_after p (takeWhile isspace s), dropWhile isspace s, g)"
    by (rule rmatch_Seq_Star_Lit) (rule rmatch_dash_space)
  then show ?thesis by (simp only: rmatch_dash rmatch_pat_years_tail2)
qed

lemma rmatch_pat_years:
  "map (\<lambda>st. snd (snd st)) (rmatch U (pat_years U) (p, s, [])) =
     (case year_at U s of None \<Rightarrow> [] | Some (y1, y2) \<Rightarrow> [[y1, y2]])"
proof -
  have e: "rmatch U (pat_years U) (p, s, []) =
    concat (map (rmatch U (Seq (Star (Lit isspace)) (Seq (Lit (\<lambda>c. c = 0x2013 \<or> c = 0x2D))
        (Seq (Star (Lit isspace)) (year_re U))))) (rmatch U (year_re U) (p, s, [])))"
    by (simp add: pat_years_def re_s_def del: rmatch.simps(8))
  show ?thesis
  proof (cases "year4 U s")
    case None
    then show ?thesis by (simp add: e rmatch_year_re year_at_def del: rmatch.simps)
  next
    case (Some t)
    obtain y1 d rest where t: "t = (y1, d, rest)" by (cases t)
    have e2: "rmatch U (pat_years U) (p, s, []) =
      rmatch U (Seq (Star (Lit isspace)) (Seq (Lit (\<lambda>c. c = 0x2013 \<or> c = 0x2D))
        (Seq (Star (Lit isspace)) (year_re U)))) (Some d, rest, [y1])"
      by (simp add: e rmatch_year_re Some t del: rmatch.simps)
    show ?thesis
      unfolding e2 rmatch_pat_years_tail1
      by (cases "dropWhile isspace rest")
        (auto simp: year_at_def Some t simp del: dropWhile_eq_Nil_conv split: option.splits)
  qed
qed

lemma rmatch_pat_years_cases:
  obtains "year_at U s = None" "rmatch U (pat_years U) (p, s, []) = []"
  | y1 y2 p' s' where "year_at U s = Some (y1, y2)"
      "rmatch U (pat_years U) (p, s, []) = [(p', s', [y1, y2])]"
proof (cases "year_at U s")
  case None
  with rmatch_pat_years [of U p s] that(1) show ?thesis by simp
next
  case (Some y)
  obtain y1 y2 where y: "y = (y1, y2)" by (cases y)
  from rmatch_pat_years [of U p s] Some y
  have "map (\<lambda>st. snd (snd st)) (rmatch U (pat_years U) (p, s, [])) = [[y1, y2]]" by simp
  then obtain st where "rmatch U (pat_years U) (p, s, []) = [st]" "snd (snd st) = [y1, y2]"
    by (cases "rmatch U (pat_years U) (p, s, [])") auto
  then have "rmatch U (pat_years U) (p, s, []) = [(fst st, fst (snd st), [y1, y2])]"
    by (cases st) auto
  with Some y that(2) show ?thesis by blast
qed

lemma re_search_from_pat_years:
  "map_option snd (re_search_from U (pat_years U) p s) =
     map_option (\<lambda>(y1, y2). [y1, y2]) (find_years U s)"
proof (induction s arbitrary: p)
  case Nil
  show ?case by (rule rmatch_pat_years_cases [of U "[]" p]) (simp_all add: year_at_def year4_def)
next
  case (Cons c cs)
  show ?case
    by (rule rmatch_pat_years_cases [of U "c # cs" p]) (simp_all add: Cons)
qed

lemma re_search_pat_years_None: "re_search U (pat_years U) s = None \<longleftrightarrow> find_years U s = None"
  using re_search_from_pat_years [of U None s] unfolding re_search_def
  by (cases "re_search_from U (pat_years U) None s"; cases "find_years U s") auto

lemma re_search_pat_years_Some:
  "re_search U (pat_years U) s = Some (m, g) \<Longrightarrow> \<exists>y1 y2. find_years U s = Some (y1, y2) \<and> g = [y1, y2]"
  using re_search_from_pat_years [of U None s] unfolding re_search_def
  by (cases "find_years U s") auto

lemma academic_year_Cons_hit:
  "find_years U t = Some (y1, y2) \<Longrightarrow> academic_year U d (t # ts) = y1 @ [0x2013] @ y2"
  by (simp add: academic_year_def)

lemma academic_year_Cons_miss:
  "find_years U t = None \<Longrightarrow>
   academic_year U d (t # ts) =
     academic_year U (if contains (ascii ''mokslo metai'') (str_lower U t) then t else d) ts"
  by (simp add: academic_year_def last_match_Cons split: option.splits)

lemma year_loop_eq:
  "year_loop U df ps cand =
     academic_year U cand
       (concat (map (\<lambda>(r, c). case cells df r c of Str v \<Rightarrow> [strip v] | _ \<Rightarrow> []) ps))"
proof (induction ps arbitrary: cand)
  case Nil
  show ?case by (simp add: academic_year_def last_match_def)
next
  case (Cons p ps)
  obtain r c where p: "p = (r, c)" by (cases p)
  show ?case
  proof (cases "cells df r c")
    case NA
    then show ?thesis by (simp add: p Cons.IH)
  next
    case (Obj x)
    then show ?thesis by (simp add: p Cons.IH)
  next
    case (Str v)
    show ?thesis
    proof (cases "re_search U (pat_years U) (strip v)")
      case None
      then have f: "find_years U (strip v) = None" by (simp add: re_search_pat_years_None)
      from None Str show ?thesis
        by (simp add: p Cons.IH academic_year_Cons_miss [OF f])
    next
      case (Some mg)
      obtain m g where mg: "mg = (m, g)" by (cases mg)
      from re_search_pat_years_Some [OF Some [unfolded mg]]
      obtain y1 y2 where f: "find_years U (strip v) = Some (y1, y2)" and g: "g = [y1, y2]" by blast
      from Some Str show ?thesis
        by (simp add: p mg g fmt_years_def academic_year_Cons_hit [OF f])
    qed
  qed
qed

lemma nat_of_digits_str_nat: "nat_of_digits (str_nat n) = n"
proof (induction n rule: str_nat.induct)
  case (1 n)
  show ?case
  proof (cases "n < 10")
    case True
    then show ?thesis by (subst str_nat.simps) (simp add: nat_of_digits_def)
  next
    case False
    from "1.IH" [OF False] have "nat_of_digits (str_nat (n div 10)) = n div 10" .
    with False show ?thesis
      by (subst str_nat.simps) (simp add: nat_of_digits_def)
  qed
qed

lemma str_nat_inj: "str_nat m = str_nat n \<Longrightarrow> m = n"
  by (metis nat_of_digits_str_nat)

lemma placeholder_inj: "placeholder j = placeholder k \<Longrightarrow> 1 \<le> j \<Longrightarrow> 1 \<le> k \<Longrightarrow> j = k"
proof -
  assume "placeholder j = placeholder k" and j: "1 \<le> j" and k: "1 \<le> k"
  then have "str_nat (j - 1) = str_nat (k - 1)" by (simp add: placeholder_def)
  then have "j - 1 = k - 1" by (rule str_nat_inj)
  with j k show ?thesis by simp
qed

lemma placeholder_not_fixed: "placeholder j \<noteq> col_nr" "placeholder j \<noteq> col_name"
  by (simp_all add: placeholder_def col_nr_def col_name_def ascii_def)

lemma subject_name_eq:
  "subjects_row < nrows df \<Longrightarrow> j < ncols df \<Longrightarrow>
   subject_name df subjects_row j = Inr (column_name df subjects_row j)"
  by (simp add: subject_name_def iat_def column_name_def cell_text_def placeholder_def Let_def)

lemma columns_loop_eq:
  "subjects_row < nrows df \<Longrightarrow> \<forall>j\<in>set js. j < ncols df \<Longrightarrow>
   columns_loop df subjects_row js cols = Inr (cols @ map (column_name df subjects_row) js)"
  by (induction js arbitrary: cols) (simp_all add: subject_name_eq)

lemma columns_loop_error:
  "\<not> subjects_row < nrows df \<Longrightarrow> js \<noteq> [] \<Longrightarrow> columns_loop df subjects_row js cols = Inl IndexError"
  by (cases js) (simp_all add: subject_name_def iat_def)

lemma distinct_filter_map_inj:
  "distinct (filter P (map f xs)) \<Longrightarrow> x \<in> set xs \<Longrightarrow> y \<in> set xs \<Longrightarrow> P (f x) \<Longrightarrow>
   f x = f y \<Longrightarrow> distinct xs \<Longrightarrow> x = y"
proof (induction xs)
  case Nil
  then show ?case by simp
next
  case (Cons a xs)
  show ?case
  proof (cases "x = y")
    case False
    from Cons.prems have d: "distinct (filter P (map f xs))" by (simp split: if_splits)
    from Cons.prems have dx: "distinct xs" by simp
    show ?thesis
    proof (cases "x = a")
      case True
      with False Cons.prems have "y \<in> set xs" by auto
      then have "f y \<in> f ` set xs" by (rule imageI)
      with True Cons.prems show ?thesis by (auto split: if_splits)
    next
      case xa: False
      show ?thesis
      proof (cases "y = a")
        case True
        with xa Cons.prems have "x \<in> set xs" by auto
        then have "f x \<in> f ` set xs" by (rule imageI)
        with True Cons.prems show ?thesis by (auto split: if_splits)
      next
        case ya: False
        with xa Cons.prems have "x \<in> set xs" "y \<in> set xs" by auto
        from Cons.IH [OF d this Cons.prems(4,5) dx] show ?thesis .
      qed
    qed
  qed simp
qed

lemma distinct_column_names:
  assumes d: "distinct (filter (\<lambda>t. t \<noteq> []) (map (\<lambda>j. cell_text (cells df sr j)) [2 ..< n]))"
    and f: "\<forall>j. 2 \<le> j \<and> j < n \<longrightarrow>
       cell_text (cells df sr j) \<notin> {col_nr, col_name} \<union> range placeholder"
  shows "distinct (col_nr # col_name # map (column_name df sr) [2 ..< n])"
proof -
  let ?t = "\<lambda>j. cell_text (cells df sr j)"
  have inj: "inj_on (column_name df sr) (set [2 ..< n])"
  proof (rule inj_onI)
    fix j k assume j: "j \<in> set [2 ..< n]" and k: "k \<in> set [2 ..< n]"
      and e: "column_name df sr j = column_name df sr k"
    from j k have jr: "2 \<le> j \<and> j < n" and kr: "2 \<le> k \<and> k < n" by auto
    show "j = k"
    proof (cases "?t j = []")
      case True
      show ?thesis
      proof (cases "?t k = []")
        case tk: True
        from e True tk have "placeholder j = placeholder k" by (simp add: column_name_def)
        then show ?thesis using jr kr by (intro placeholder_inj) auto
      next
        case tk: False
        from e True tk have "?t k = placeholder j" by (simp add: column_name_def)
        with f kr show ?thesis by auto
      qed
    next
      case False
      show ?thesis
      proof (cases "?t k = []")
        case tk: True
        from e False tk have "?t j = placeholder k" by (simp add: column_name_def)
        with f jr show ?thesis by auto
      next
        case tk: False
        from e False tk have "?t j = ?t k" by (simp add: column_name_def)
        from distinct_filter_map_inj [where f = ?t and P = "\<lambda>t. t \<noteq> []", OF d j k False this]
        show ?thesis by simp
      qed
    qed
  qed
  have dm: "distinct (map (column_name df sr) [2 ..< n])"
    using inj by (simp add: distinct_map)
  have nf: "column_name df sr j \<notin> {col_nr, col_name}" if "2 \<le> j \<and> j < n" for j
    using f that placeholder_not_fixed [of j] by (auto simp: column_name_def Let_def)
  then have "col_nr \<notin> set (map (column_name df sr) [2 ..< n])"
    "col_name \<notin> set (map (column_name df sr) [2 ..< n])" by fastforce+
  moreover have "col_nr \<noteq> col_name" by (simp add: col_nr_def col_name_def ascii_def)
  ultimately show ?thesis using dm by simp
qed

lemma ex_grid_shape: "nrows ex_grid = 5" "ncols ex_grid = 4"
  by (simp_all add: ex_grid_def of_rows_def)

lemma ex_grid_cells:
  "cells ex_grid r c =
     [[Str (ascii ''Eil. Nr.''), Str col_name, NA, NA],
      [NA, NA, Str (ascii '' Fizika ''), NA],
      [Obj (ascii ''1''), Str (ascii ''Jonaitis Jonas''), Obj (ascii ''8''), NA],
      [Obj (ascii ''2''), Str (ascii ''nan''), Obj (ascii ''9''), NA],
      [NA, Str summary_name, NA, Obj (ascii ''8.5'')]] ! r ! c"
  by (simp add: ex_grid_def of_rows_def)

lemma upt_2_4: "[2 ..< 4] = [2, 3]"
  by (simp add: upt_rec)

lemma str_nat_digit: "n < 10 \<Longrightarrow> str_nat n = [48 + n]"
  by (subst str_nat.simps) simp

lemma ex_grid_column_names:
  "map (column_name ex_grid 1) [2 ..< ncols ex_grid] = [ascii ''Fizika'', ascii ''Dalykas_2'']"
  by (simp add: ex_grid_shape upt_2_4 column_name_def cell_text_def ex_grid_cells placeholder_def
      str_nat_digit str_defs)

lemma header_step:
  assumes "0 < ncols df" "i < nrows df"
  shows "find_header_loop U df i (Suc n) =
     (if spec_header_row U df i then Inr (Some (i, i + 1)) else find_header_loop U df (i + 1) n)"
proof (cases "1 < ncols df")
  case True
  with assms show ?thesis
    by (simp add: iat_def header_cells_match_def spec_header_row_def cell_text_def Let_def)
next
  case False
  with assms show ?thesis
    by (simp add: iat_def header_cells_match_def spec_header_row_def cell_text_def Let_def)
qed

lemma find_header_loop_eq:
  assumes c: "0 < ncols df"
  shows "i + n \<le> nrows df \<Longrightarrow>
     find_header_loop U df i n =
       Inr (map_option (\<lambda>h. (h, h + 1)) (List.find (spec_header_row U df) [i ..< i + n]))"
proof (induction n arbitrary: i)
  case 0
  show ?case by simp
next
  case (Suc n)
  have i: "i < nrows df" using Suc.prems by simp
  have u: "[i ..< i + Suc n] = i # [i + 1 ..< (i + 1) + n]" by (simp add: upt_rec)
  have "(i + 1) + n \<le> nrows df" using Suc.prems by simp
  from Suc.IH [OF this] show ?case
    unfolding u header_step [OF c i] by simp
qed

lemma find_header_rows_eq:
  "0 < ncols df \<Longrightarrow>
   find_header_rows U df =
     Inr (map_option (\<lambda>h. (h, h + 1)) (List.find (spec_header_row U df) [0 ..< min 40 (nrows df)]))"
  unfolding find_header_rows_def using find_header_loop_eq [of df 0 "min 40 (nrows df)" U] by simp

lemma find_header_rows_no_columns:
  "ncols df = 0 \<Longrightarrow> find_header_rows U df = (if nrows df = 0 then Inr None else Inl IndexError)"
  unfolding find_header_rows_def by (cases "min 40 (nrows df)") (auto simp: iat_def)

lemma parse_no_header:
  "find_header_rows U df = Inr None \<Longrightarrow> parse_excel_to_df U df = Inl HeaderNotFound"
  by (simp add: parse_excel_to_df_def split: prod.splits)

lemma parse_header_error:
  "find_header_rows U df = Inl e \<Longrightarrow> parse_excel_to_df U df = Inl e"
  by (simp add: parse_excel_to_df_def split: prod.splits)

lemma main_parse_error:
  "parse_excel_to_df U df = Inl e \<Longrightarrow> main U render df a b c button = Failed e"
  by (simp add: main_def)

lemma getitem_Inr:
  "getitem X c = Inr vs \<longleftrightarrow> (\<exists>p. label_position X c = Inr p \<and> vs = map (\<lambda>row. row ! p) (body X))"
  by (cases "label_position X c") (auto simp: getitem_def)

lemma label_position_mask [simp]: "label_position (getitem_mask X keep) c = label_position X c"
  by (simp add: label_position_def label_positions_def getitem_mask_def)

lemma label_position_dropna [simp]: "label_position (dropna_all X) c = label_position X c"
  by (simp add: label_position_def label_positions_def dropna_all_def)

lemma columns_mask [simp]: "columns (getitem_mask X keep) = columns X"
  by (simp add: getitem_mask_def)

lemma columns_dropna [simp]: "columns (dropna_all X) = columns X"
  by (simp add: dropna_all_def)

lemma map_nth_mask:
  "map (\<lambda>row. row ! p) (map fst (filter snd (zip rows keep))) =
   map fst (filter snd (zip (map (\<lambda>row. row ! p) rows) keep))"
proof (induction rows arbitrary: keep)
  case Nil
  show ?case by simp
next
  case (Cons r rows)
  show ?case using Cons [of "tl keep"] by (cases keep) simp_all
qed

lemma getitem_mask_col:
  "getitem X c = Inr vs \<Longrightarrow>
   getitem (getitem_mask X keep) c = Inr (map fst (filter snd (zip vs keep)))"
proof -
  assume "getitem X c = Inr vs"
  then obtain p where p: "label_position X c = Inr p" and vs: "vs = map (\<lambda>row. row ! p) (body X)"
    by (auto simp: getitem_Inr)
  have b: "body (getitem_mask X keep) = map fst (filter snd (zip (body X) keep))"
    by (simp add: getitem_mask_def)
  have "map (\<lambda>row. row ! p) (body (getitem_mask X keep)) = map fst (filter snd (zip vs keep))"
    unfolding vs b by (rule map_nth_mask)
  with p show ?thesis by (simp add: getitem_def)
qed

lemma mask_self: "map fst (filter snd (zip vs (map P vs))) = filter P vs"
  by (induction vs) auto

lemma set_mask: "set (map fst (filter snd (zip vs keep))) \<subseteq> set vs"
proof (induction vs arbitrary: keep)
  case Nil
  show ?case by simp
next
  case (Cons v vs)
  show ?case using Cons [of "tl keep"] by (cases keep) auto
qed

lemma label_positions_label:
  "j \<in> set (label_positions X n) \<longleftrightarrow> j < length (columns X) \<and> columns X ! j = n"
  by (auto simp: label_positions_def)

lemma length_label_positions_count: "length (label_positions X c) = count_list (columns X) c"
proof -
  have "filter ((=) c) (columns X) = filter (\<lambda>x. x = c) (columns X)"
    by (rule filter_cong) auto
  then show ?thesis by (simp add: length_label_positions count_list_eq_length_filter)
qed

lemma label_position_Inr: "label_position X c = Inr p \<longleftrightarrow> label_positions X c = [p]"
  by (auto simp: label_position_def split: list.splits)

lemma label_position_count: "(\<exists>p. label_position X c = Inr p) \<longleftrightarrow> count_list (columns X) c = 1"
proof -
  have "(\<exists>p. label_positions X c = [p]) \<longleftrightarrow> length (label_positions X c) = 1"
    by (cases "label_positions X c") auto
  then show ?thesis by (simp add: label_position_Inr length_label_positions_count)
qed

lemma map_label_positions:
  "map (\<lambda>j. columns X ! j) (label_positions X n) = replicate (length (label_positions X n)) n"
proof -
  have "map (\<lambda>j. columns X ! j) (label_positions X n) = map (\<lambda>j. n) (label_positions X n)"
    by (rule map_cong) (auto simp: label_positions_label)
  then show ?thesis by (simp add: map_replicate_const)
qed

lemma getitem_list_Inr:
  assumes "getitem_list X names = Inr Y"
  shows "\<forall>n\<in>set names. label_positions X n \<noteq> []"
    and "columns Y = map (\<lambda>j. columns X ! j) (concat (map (label_positions X) names))"
    and "body Y = map (\<lambda>row. map (\<lambda>j. row ! j) (concat (map (label_positions X) names))) (body X)"
  using assms by (auto simp: getitem_list_def list_ex_iff Let_def split: if_splits)

lemma columns_getitem_list:
  assumes "getitem_list X names = Inr Y"
  shows "columns Y = concat (map (\<lambda>n. replicate (length (label_positions X n)) n) names)"
proof -
  have "map (\<lambda>j. columns X ! j) (concat (map (label_positions X) ns)) =
        concat (map (\<lambda>n. replicate (length (label_positions X n)) n) ns)" for ns
    by (induction ns) (simp_all add: map_label_positions)
  with getitem_list_Inr(2) [OF assms] show ?thesis by simp
qed

lemma count_concat_replicate:
  "count_list (concat (map (\<lambda>n. replicate (k n) n) names)) c = count_list names c * k c"
proof (induction names)
  case Nil
  show ?case by simp
next
  case (Cons n names)
  have r: "count_list (replicate m x) c = (if x = c then m else 0)" for m and x :: 'a
    by (induction m) auto
  show ?case using Cons by (simp add: count_list_append r)
qed

lemma count_columns_getitem_list:
  assumes "getitem_list X names = Inr Y"
  shows "count_list (columns Y) c = count_list names c * count_list (columns X) c"
  by (simp add: columns_getitem_list [OF assms] count_concat_replicate length_label_positions_count)

lemma getitem_list_col:
  assumes g: "getitem_list X names = Inr Y" and n: "count_list names c = 1"
    and p: "label_position X c = Inr p"
  shows "getitem Y c = getitem X c"
proof -
  let ?js = "concat (map (label_positions X) names)"
  have cx: "count_list (columns X) c = 1" using p label_position_count [of X c] by blast
  have "count_list (columns Y) c = 1" using count_columns_getitem_list [OF g, of c] n cx by simp
  then obtain q where q: "label_position Y c = Inr q" using label_position_count [of Y c] by blast
  then have "q \<in> set (label_positions Y c)" by (simp add: label_position_Inr)
  then have ql: "q < length (columns Y)" and qc: "columns Y ! q = c"
    by (simp_all add: label_positions_label)
  have cy: "columns Y = map (\<lambda>j. columns X ! j) ?js" by (rule getitem_list_Inr(2) [OF g])
  from ql cy have qj: "q < length ?js" by simp
  have "set ?js = (\<Union>n\<in>set names. set (label_positions X n))" by auto
  with nth_mem [OF qj] obtain m where "m \<in> set names" "?js ! q \<in> set (label_positions X m)" by blast
  then have "?js ! q < length (columns X)" by (simp add: label_positions_label)
  moreover have "columns X ! (?js ! q) = c" using qc qj cy by simp
  ultimately have "?js ! q \<in> set (label_positions X c)" by (simp add: label_positions_label)
  with p have jq: "?js ! q = p" by (simp add: label_position_Inr)
  have "map (\<lambda>row. row ! q) (body Y) = map (\<lambda>row. row ! p) (body X)"
    using qj jq by (simp add: getitem_list_Inr(3) [OF g])
  with p q show ?thesis by (simp add: getitem_def)
qed

lemma keep_cols_loop_Inr:
  "keep_cols_loop data cols acc = Inr keep \<Longrightarrow> distinct acc \<Longrightarrow>
   distinct keep \<and> (\<exists>extra. keep = acc @ extra \<and>
     (\<forall>c\<in>set extra. \<exists>vs. getitem data c = Inr vs \<and> list_ex notna vs))"
proof (induction cols arbitrary: acc)
  case Nil
  then show ?case by simp
next
  case (Cons col cols)
  show ?case
  proof (cases "col \<in> set acc")
    case True
    with Cons.prems have "keep_cols_loop data cols acc = Inr keep" by simp
    from Cons.IH [OF this Cons.prems(2)] show ?thesis .
  next
    case False
    with Cons.prems(1) obtain vs where vs: "getitem data col = Inr vs"
      by (auto split: sum.splits)
    show ?thesis
    proof (cases "list_ex notna vs")
      case True
      with False vs Cons.prems have k: "keep_cols_loop data cols (acc @ [col]) = Inr keep" by simp
      have "distinct (acc @ [col])" using False Cons.prems(2) by simp
      from Cons.IH [OF k this] obtain extra where
        dk: "distinct keep" and e: "keep = (acc @ [col]) @ extra"
        and a: "\<forall>c\<in>set extra. \<exists>vs. getitem data c = Inr vs \<and> list_ex notna vs" by blast
      have "keep = acc @ (col # extra)" using e by simp
      moreover have "\<forall>c\<in>set (col # extra). \<exists>vs. getitem data c = Inr vs \<and> list_ex notna vs"
        using a vs True by auto
      ultimately show ?thesis using dk by blast
    next
      case nv: False
      with False vs Cons.prems have "keep_cols_loop data cols acc = Inr keep" by simp
      from Cons.IH [OF this Cons.prems(2)] show ?thesis .
    qed
  qed
qed

lemma fixed_labels_differ: "col_nr \<noteq> col_name"
  by (simp add: col_nr_def col_name_def ascii_def)

text \<open>What a successful run of the table builder has gone through.\<close>

lemma parse_Inr:
  assumes "parse_excel_to_df U df0 = Inr (P, m)"
  obtains D0 names0 K where "getitem D0 col_name = Inr names0"
    and "keep_cols_loop (getitem_mask D0 (map notna names0)) (columns D0) [col_nr, col_name] = Inr K"
    and "getitem_list (getitem_mask D0 (map notna names0)) K = Inr P"
  using assms
  by (auto simp: parse_excel_to_df_def Let_def split: prod.splits sum.splits option.splits if_splits)

lemma count_list_distinct: "distinct xs \<Longrightarrow> x \<in> set xs \<Longrightarrow> count_list xs x = 1"
  by (induction xs) (auto simp: count_list_0_iff)

lemma parse_invariant:
  assumes "parse_excel_to_df U df0 = Inr (P, m)"
  shows "list_all (column_has_value P) (subject_labels P)" and "names_present P"
    and "distinct (subject_labels P)" and "count_list (columns P) col_name = 1"
proof -
  from assms obtain D0 names0 K where n0: "getitem D0 col_name = Inr names0"
    and k: "keep_cols_loop (getitem_mask D0 (map notna names0)) (columns D0) [col_nr, col_name] = Inr K"
    and g: "getitem_list (getitem_mask D0 (map notna names0)) K = Inr P"
    by (rule parse_Inr)
  let ?D = "getitem_mask D0 (map notna names0)"
  from keep_cols_loop_Inr [OF k] fixed_labels_differ obtain extra where dk: "distinct K"
    and K: "K = [col_nr, col_name] @ extra"
    and ex: "\<forall>c\<in>set extra. \<exists>vs. getitem ?D c = Inr vs \<and> list_ex notna vs" by auto
  have once: "count_list K c = 1" if "c \<in> set K" for c
    using count_list_distinct [OF dk that] .
  have nD: "getitem ?D col_name = Inr (filter notna names0)"
    using getitem_mask_col [OF n0, of "map notna names0"] by (simp add: mask_self)
  then obtain pn where pn: "label_position ?D col_name = Inr pn" by (auto simp: getitem_Inr)
  have "getitem P col_name = getitem ?D col_name"
    by (rule getitem_list_col [OF g once pn]) (simp add: K)
  with nD show "names_present P" by (simp add: names_present_def list_all_iff)
  have cD: "count_list (columns ?D) col_name = 1" using pn label_position_count [of ?D col_name] by blast
  show "count_list (columns P) col_name = 1"
    using count_columns_getitem_list [OF g, of col_name] once [of col_name] cD by (simp add: K)
  have sl: "subject_labels P = extra"
  proof -
    have nf: "c \<noteq> col_nr \<and> c \<noteq> col_name" if "c \<in> set extra" for c using dk K that by auto
    have one: "length (label_positions ?D c) = 1" if "c \<in> set extra" for c
    proof -
      from ex that obtain vs where "getitem ?D c = Inr vs" by blast
      then have "\<exists>p. label_position ?D c = Inr p" by (auto simp: getitem_Inr)
      then show ?thesis by (simp add: label_position_count length_label_positions_count)
    qed
    have "filter (\<lambda>c. c \<noteq> col_nr \<and> c \<noteq> col_name)
            (concat (map (\<lambda>n. replicate (length (label_positions ?D n)) n) es)) = es"
      if "set es \<subseteq> set extra" for es
      using that by (induction es) (simp_all add: nf one)
    then show ?thesis
      by (simp add: subject_labels_def columns_getitem_list [OF g] K)
  qed
  show "distinct (subject_labels P)" using dk K by (simp add: sl)
  show "list_all (column_has_value P) (subject_labels P)"
    unfolding list_all_iff sl
  proof
    fix c assume c: "c \<in> set extra"
    with ex obtain vs where vs: "getitem ?D c = Inr vs" "list_ex notna vs" by blast
    then obtain p where p: "label_position ?D c = Inr p" by (auto simp: getitem_Inr)
    have "getitem P c = getitem ?D c"
      by (rule getitem_list_col [OF g once p]) (simp add: K c)
    with vs show "column_has_value P c" by (simp add: column_has_value_def)
  qed
qed

lemma not_level_column: "(\<not> level_column U c) = (re_search U (ACH_LVL_COL_RE U) c = None)"
  by (simp only: level_column_def not_not)

lemma student_table_Inr:
  assumes "student_table U P = Inr T"
  obtains S ns where
    "getitem_list P (filter (\<lambda>c. re_search U (ACH_LVL_COL_RE U) c = None) (columns P)) = Inr S"
    and "getitem S col_name = Inr ns"
    and "T = getitem_mask S (map (\<lambda>v. \<not> summary_row U v) ns)"
  using assms
  by (auto simp: student_table_def Let_def summary_row_def comp_def split: sum.splits)

lemma count_list_filter: "P x \<Longrightarrow> count_list (filter P xs) x = count_list xs x"
  by (induction xs) auto

lemma count_list_filter_le: "count_list (filter P xs) x \<le> count_list xs x"
  by (induction xs) auto

lemma count_subject_label:
  assumes "distinct (subject_labels P)" "c \<in> set (subject_labels P)"
  shows "count_list (columns P) c = 1"
proof -
  from assms(2) have p: "c \<noteq> col_nr \<and> c \<noteq> col_name" by (simp add: subject_labels_def)
  have "count_list (subject_labels P) c = 1" by (rule count_list_distinct [OF assms])
  then show ?thesis
    unfolding subject_labels_def using count_list_filter [of "\<lambda>c. c \<noteq> col_nr \<and> c \<noteq> col_name" c "columns P"] p
    by simp
qed

lemma count_once_filter:
  assumes "count_list xs c = 1" "c \<in> set (filter Q xs)"
  shows "count_list (filter Q xs) c = 1"
proof -
  have "count_list (filter Q xs) c \<le> 1" using count_list_filter_le [of Q xs c] assms(1) by simp
  moreover have "count_list (filter Q xs) c \<noteq> 0" using assms(2) by (simp only: count_list_0_iff) simp
  ultimately show ?thesis by simp
qed

lemma subject_labels_getitem_list:
  assumes g: "getitem_list P names = Inr S" and d: "distinct (subject_labels P)"
    and s: "set names \<subseteq> set (columns P)"
  shows "subject_labels S = filter (\<lambda>c. c \<noteq> col_nr \<and> c \<noteq> col_name) names"
proof -
  have one: "length (label_positions P c) = 1" if "c \<in> set (columns P)" "c \<noteq> col_nr \<and> c \<noteq> col_name" for c
    using count_subject_label [OF d, of c] that by (simp add: length_label_positions_count subject_labels_def)
  have "filter (\<lambda>c. c \<noteq> col_nr \<and> c \<noteq> col_name)
          (concat (map (\<lambda>n. replicate (length (label_positions P n)) n) ns)) =
        filter (\<lambda>c. c \<noteq> col_nr \<and> c \<noteq> col_name) ns"
    if "set ns \<subseteq> set (columns P)" for ns
    using that by (induction ns) (auto simp: one)
  from this [OF s] show ?thesis
    by (simp add: subject_labels_def columns_getitem_list [OF g])
qed

lemma mask_map:
  "map fst (filter snd (zip vs (map f ns))) = map fst (filter (\<lambda>(v, n). f n) (zip vs ns))"
proof (induction vs arbitrary: ns)
  case Nil
  show ?case by simp
next
  case (Cons v vs)
  show ?case using Cons [of "tl ns"] by (cases ns) simp_all
qed

lemma student_table_invariant_aux:
  assumes c1: "count_list (columns P) col_name = 1" and d: "distinct (subject_labels P)"
    and np: "names_present P" and T: "student_table U P = Inr T"
  shows "names_present T"
    and "subject_labels T = filter (\<lambda>c. \<not> level_column U c) (subject_labels P)"
    and "\<exists>i. label_position T col_name = Inr i"
    and "\<forall>c\<in>set (subject_labels T). \<exists>vs. getitem P c = Inr vs \<and>
           getitem T c = Inr (map fst (filter snd (zip vs (summary_mask U P))))"
proof -
  let ?Q = "\<lambda>c. re_search U (ACH_LVL_COL_RE U) c = None"
  from T obtain S ns where g: "getitem_list P (filter ?Q (columns P)) = Inr S"
    and ns: "getitem S col_name = Inr ns"
    and TS: "T = getitem_mask S (map (\<lambda>v. \<not> summary_row U v) ns)"
    by (rule student_table_Inr)
  from c1 obtain pn where pn: "label_position P col_name = Inr pn"
    using label_position_count [of P col_name] by blast
  from ns obtain q where q: "label_position S col_name = Inr q" by (auto simp: getitem_Inr)
  then have "count_list (columns S) col_name = 1" using label_position_count [of S col_name] by blast
  with count_columns_getitem_list [OF g, of col_name] c1
  have cn: "count_list (filter ?Q (columns P)) col_name = 1" by simp
  have eqn: "getitem S col_name = getitem P col_name" by (rule getitem_list_col [OF g cn pn])
  with ns have nsP: "getitem P col_name = Inr ns" by simp
  with np have all: "list_all notna ns" by (simp add: names_present_def)
  have mask: "summary_mask U P = map (\<lambda>v. \<not> summary_row U v) ns" by (simp add: summary_mask_def nsP)
  have gT: "getitem T col_name = Inr (map fst (filter snd (zip ns (map (\<lambda>v. \<not> summary_row U v) ns))))"
    unfolding TS by (rule getitem_mask_col [OF ns])
  have "set (map fst (filter snd (zip ns (map (\<lambda>v. \<not> summary_row U v) ns)))) \<subseteq> set ns"
    by (rule set_mask)
  with all have "list_all notna (map fst (filter snd (zip ns (map (\<lambda>v. \<not> summary_row U v) ns))))"
    unfolding list_all_iff by blast
  then show "names_present T" by (simp only: names_present_def gT sum.case)
  show "\<exists>i. label_position T col_name = Inr i" using q by (simp add: TS)
  have "subject_labels T = subject_labels S" by (simp add: subject_labels_def TS)
  also have "\<dots> = filter (\<lambda>c. c \<noteq> col_nr \<and> c \<noteq> col_name) (filter ?Q (columns P))"
    by (rule subject_labels_getitem_list [OF g d]) auto
  also have "\<dots> = filter (\<lambda>c. \<not> level_column U c) (subject_labels P)"
    unfolding subject_labels_def not_level_column filter_filter by (rule filter_cong [OF refl], rule conj_commute)
  finally show sl: "subject_labels T = filter (\<lambda>c. \<not> level_column U c) (subject_labels P)" .
  show "\<forall>c\<in>set (subject_labels T). \<exists>vs. getitem P c = Inr vs \<and>
           getitem T c = Inr (map fst (filter snd (zip vs (summary_mask U P))))"
  proof
    fix c assume c: "c \<in> set (subject_labels T)"
    then have cp: "c \<in> set (subject_labels P)" and cq: "?Q c" by (simp_all add: sl not_level_column)
    have cc: "count_list (columns P) c = 1" by (rule count_subject_label [OF d cp])
    then obtain p where p: "label_position P c = Inr p" using label_position_count [of P c] by blast
    have "c \<in> set (filter ?Q (columns P))" using cp cq by (simp add: subject_labels_def)
    then have "count_list (filter ?Q (columns P)) c = 1" by (rule count_once_filter [OF cc])
    then have e: "getitem S c = getitem P c" by (rule getitem_list_col [OF g _ p])
    from p obtain vs where vs: "getitem P c = Inr vs" by (auto simp: getitem_Inr)
    with e have "getitem S c = Inr vs" by simp
    from getitem_mask_col [OF this, of "map (\<lambda>v. \<not> summary_row U v) ns"]
    have "getitem T c = Inr (map fst (filter snd (zip vs (summary_mask U P))))"
      by (simp add: TS mask)
    with vs show "\<exists>vs. getitem P c = Inr vs \<and>
           getitem T c = Inr (map fst (filter snd (zip vs (summary_mask U P))))" by blast
  qed
qed

lemma replace_concat: "replace old new (concat xss) = concat (map (replace old new) xss)"
  by (induction xss) (simp_all add: replace_def)

lemma replace_append: "replace old new (xs @ ys) = replace old new xs @ replace old new ys"
  by (simp add: replace_def)

lemma replace_concat_map: "replace old new (concat (map f s)) = concat (map (\<lambda>c. replace old new (f c)) s)"
  by (simp add: replace_concat comp_def)

lemma replace_chars: "replace old new s = concat (map (\<lambda>c. replace old new [c]) s)"
  by (simp add: replace_def)

lemma safe_char_eq:
  "replace 124 (ascii ''-'') (replace 62 (ascii '')'') (replace 60 (ascii ''('')
       (replace 34 [] (replace 63 [] (replace 42 (ascii ''-'') (replace 58 (ascii ''-'')
         (replace 92 (ascii ''-'') (replace 47 (ascii ''-'') [c])))))))) = safe_char c"
proof (cases "c = 47 \<or> c = 92 \<or> c = 58 \<or> c = 42 \<or> c = 63 \<or> c = 34 \<or> c = 60 \<or> c = 62 \<or> c = 124")
  case True
  then show ?thesis by (elim disjE) (simp_all add: replace_def safe_char_def ascii_def)
next
  case False
  then show ?thesis by (simp add: replace_def safe_char_def ascii_def)
qed

lemma safe_name_of_eq: "safe_name_of s = concat (map safe_char s)"
proof -
  have "safe_name_of s = concat (map (\<lambda>c. replace 124 (ascii ''-'') (replace 62 (ascii '')'') (replace 60 (ascii ''('')
       (replace 34 [] (replace 63 [] (replace 42 (ascii ''-'') (replace 58 (ascii ''-'')
         (replace 92 (ascii ''-'') (replace 47 (ascii ''-'') [c]))))))))) s)"
    unfolding safe_name_of_def
    by (subst replace_chars [of 47]) (simp only: replace_concat_map)
  then show ?thesis by (simp only: safe_char_eq)
qed

lemma safe_name_of_safe: "set (safe_name_of s) \<inter> set unsafe_chars = {}"
proof -
  have "set (safe_char c) \<inter> set unsafe_chars = {}" for c
    by (simp add: safe_char_def unsafe_chars_def)
  then show ?thesis by (auto simp: safe_name_of_eq)
qed

lemma zip_loop_eq:
  assumes i: "label_position T col_name = Inr i" and d: "distinct (subject_labels T)"
  shows "zip_loop U (\<lambda>a. Inr (pdf a)) T school klase metai rows zf =
     Inr (zf @ map (document U pdf T school klase metai)
                 (filter (\<lambda>row. has_document U (display_name T row)) rows))"
proof (induction rows arbitrary: zf)
  case Nil
  show ?case by simp
next
  case (Cons row rows)
  have g: "row_get T row col_name = Inr (row ! i)" by (simp add: row_get_def i)
  have n: "display_name T row = strip (str_of (row ! i))" by (simp add: display_name_def i)
  show ?case
  proof (cases "has_document U (display_name T row)")
    case True
    then show ?thesis
      using Cons [of "zf @ [document U pdf T school klase metai row]"]
      by (simp add: g n [symmetric] has_document_def subjects_loop_eq [OF d] document_def safe_name_of_eq Let_def)
  next
    case False
    then show ?thesis
      using Cons [of zf]
      by (auto simp: g n [symmetric] has_document_def Let_def)
  qed
qed

lemma main_Download:
  assumes P: "parse_excel_to_df U df0 = Inr (P, m)" and T: "student_table U P = Inr T"
    and b: "body T \<noteq> []"
  shows "main U (\<lambda>a. Inr (pdf a)) df0 metai_input school_input klase_input True =
     Download (map (document U pdf T (py_or school_input (meta_mokykla m))
                      (py_or klase_input (meta_klase m)) (py_or metai_input (meta_akadem_metai m)))
                 (filter (\<lambda>row. has_document U (display_name T row)) (body T)))"
proof -
  note inv = parse_invariant [OF P]
  note aux = student_table_invariant_aux [OF inv(4) inv(3) inv(2) T]
  from aux(3) obtain i where i: "label_position T col_name = Inr i" by blast
  have d: "distinct (subject_labels T)" using inv(3) by (simp add: aux(2))
  show ?thesis
    using b by (simp add: main_def P T Let_def zip_loop_eq [OF i d])
qed

lemma ex_sheet_shape: "nrows ex_sheet = 5" "ncols ex_sheet = 4"
  by (simp_all add: ex_sheet_def of_rows_def)

lemma ex_sheet_cells:
  "cells ex_sheet r c =
     [[Str (ascii ''Eil. Nr.''), Str col_name, NA, NA],
      [NA, NA, Str (ascii '' Fizika ''), NA],
      [Obj (ascii ''1''), Str (ascii ''Jonaitis/Jonas''), Obj (ascii ''8''), NA],
      [Obj (ascii ''2''), Str (ascii '' ''), Obj (ascii ''9''), NA],
      [NA, Str summary_name, NA, Obj (ascii ''8.5'')]] ! r ! c"
  by (simp add: ex_sheet_def of_rows_def)

lemma ex_sheet_header: "find_header_rows lt_db ex_sheet = Inr (Some (0, 1))"
proof -
  have "spec_header_row lt_db ex_sheet 0"
    by (simp add: spec_header_row_def ex_sheet_shape ex_sheet_cells cell_text_def col_name_def lt_eval)
  then have "List.find (spec_header_row lt_db ex_sheet) [0 ..< min 40 (nrows ex_sheet)] = Some 0"
    by (simp add: ex_sheet_shape upt_rec)
  then show ?thesis by (simp add: find_header_rows_eq ex_sheet_shape)
qed

lemma ex_sheet_columns:
  "build_columns ex_sheet 1 = Inr [col_nr, col_name, ascii ''Fizika'', ascii ''Dalykas_2'']"
  by (simp add: build_columns_def ex_sheet_shape ex_sheet_cells upt_2_4 subject_name_def iat_def str_defs
      str_nat_digit)

lemma ex_sheet_data_start: "find_data_start lt_db ex_sheet 2 = 2"
  by (subst find_data_start.simps)
    (simp add: ex_sheet_shape ex_sheet_cells lt_db_simps lt_int_ok_def str_defs)

lemma upt_2_5: "[2 ..< 5] = [2, 3, 4]"
  by (simp add: upt_rec)

lemma upt_0_4: "[0 ..< 4] = [0, 1, 2, 3]"
  by (simp add: upt_rec)

lemma ex_sheet_iloc: "iloc ex_sheet 2 4 = body ex_parsed"
  by (simp add: iloc_def ex_sheet_shape ex_sheet_cells upt_2_5 upt_0_4 ex_parsed_def)

lemma ex_labels4:
  "col_nr \<noteq> col_name" "col_nr \<noteq> ascii ''Fizika''" "col_nr \<noteq> ascii ''Dalykas_2''"
  "col_name \<noteq> ascii ''Fizika''" "col_name \<noteq> ascii ''Dalykas_2''" "ascii ''Fizika'' \<noteq> ascii ''Dalykas_2''"
  "col_name \<noteq> col_nr" "ascii ''Fizika'' \<noteq> col_nr" "ascii ''Dalykas_2'' \<noteq> col_nr"
  "ascii ''Fizika'' \<noteq> col_name" "ascii ''Dalykas_2'' \<noteq> col_name" "ascii ''Dalykas_2'' \<noteq> ascii ''Fizika''"
  by (simp_all add: col_nr_def col_name_def ascii_def)

lemma ex_positions:
  assumes "columns X = [col_nr, col_name, ascii ''Fizika'', ascii ''Dalykas_2'']"
  shows "label_positions X col_nr = [0]" "label_positions X col_name = [1]"
    "label_positions X (ascii ''Fizika'') = [2]" "label_positions X (ascii ''Dalykas_2'') = [3]"
  using ex_labels4 by (simp_all add: label_positions_def assms upt_0_4)

lemma ex_parsed_columns: "columns ex_parsed = [col_nr, col_name, ascii ''Fizika'', ascii ''Dalykas_2'']"
  by (simp add: ex_parsed_def)

lemma ex_final_columns: "columns ex_final = [col_nr, col_name, ascii ''Fizika'', ascii ''Dalykas_2'']"
  by (simp add: ex_final_def)

lemma ex_parsed_getitem:
  "getitem ex_parsed col_name = Inr [Str (ascii ''Jonaitis/Jonas''), Str (ascii '' ''), Str summary_name]"
  "getitem ex_parsed (ascii ''Fizika'') = Inr [Obj (ascii ''8''), Obj (ascii ''9''), NA]"
  "getitem ex_parsed (ascii ''Dalykas_2'') = Inr [NA, NA, Obj (ascii ''8.5'')]"
  by (simp_all add: getitem_def label_position_def ex_positions [OF ex_parsed_columns])
    (simp_all add: ex_parsed_def)

lemma ex_final_getitem:
  "getitem ex_final col_name = Inr [Str (ascii ''Jonaitis/Jonas''), Str (ascii '' '')]"
  "getitem ex_final (ascii ''Fizika'') = Inr [Obj (ascii ''8''), Obj (ascii ''9'')]"
  "getitem ex_final (ascii ''Dalykas_2'') = Inr [NA, NA]"
  by (simp_all add: getitem_def label_position_def ex_positions [OF ex_final_columns])
    (simp_all add: ex_final_def)

lemma ex_parsed_id:
  "getitem_list ex_parsed [col_nr, col_name, ascii ''Fizika'', ascii ''Dalykas_2''] = Inr ex_parsed"
  by (simp add: getitem_list_def ex_positions [OF ex_parsed_columns]) (simp add: ex_parsed_def)

lemma ex_sheet_texts:
  "window_texts ex_sheet =
     [ascii ''Eil. Nr.'', col_name, ascii ''Fizika'', ascii ''Jonaitis/Jonas'', [], summary_name]"
  by (simp add: window_texts_def window_def ex_sheet_shape ex_sheet_cells upt_rec str_defs
      col_name_def summary_name_def)

lemma ex_sheet_meta:
  "try_extract_school_and_class lt_db ex_sheet = ([], [])"
  "try_extract_academic_year lt_db ex_sheet = []"
proof -
  have "try_extract_school_and_class lt_db ex_sheet =
     (last_match (school_text lt_db) after_colon [] (window_texts ex_sheet),
      last_match (class_text lt_db) after_colon [] (window_texts ex_sheet))"
    by (simp add: try_extract_school_and_class_def school_class_foldl window_texts_def)
  then show "try_extract_school_and_class lt_db ex_sheet = ([], [])"
    by (simp add: ex_sheet_texts last_match_def school_text_def class_text_def col_name_def
        summary_name_def ascii_def)
  have "try_extract_academic_year lt_db ex_sheet = academic_year lt_db [] (window_texts ex_sheet)"
    by (simp add: try_extract_academic_year_def year_loop_eq window_texts_def)
  then show "try_extract_academic_year lt_db ex_sheet = []"
    by (simp add: ex_sheet_texts academic_year_def year_at_def year4_def last_match_def
        col_name_def summary_name_def lt_eval)
qed

lemma parse_steps:
  assumes "find_header_rows U df0 = Inr (Some (h, sr))" and "build_columns df0 sr = Inr cols"
    and "find_data_start U df0 (Suc sr) = ds" and "min (length cols) (ncols df0) = length cols"
    and "dropna_all \<lparr> columns = cols, body = iloc df0 ds (length cols) \<rparr> = D0"
    and "getitem D0 col_name = Inr names" and "getitem_mask D0 (map notna names) = D"
    and "keep_cols_loop D (columns D) [col_nr, col_name] = Inr K" and "getitem_list D K = Inr P"
  shows "parse_excel_to_df U df0 =
     Inr (P, \<lparr> meta_mokykla = fst (try_extract_school_and_class U df0),
                meta_klase = snd (try_extract_school_and_class U df0),
                meta_akadem_metai = try_extract_academic_year U df0 \<rparr>)"
  by (simp add: parse_excel_to_df_def assms Let_def split: prod.splits)

lemma ex_sheet_parse:
  "parse_excel_to_df lt_db ex_sheet =
     Inr (ex_parsed, \<lparr> meta_mokykla = [], meta_klase = [], meta_akadem_metai = [] \<rparr>)"
proof -
  have 1: "find_header_rows lt_db ex_sheet = Inr (Some (0, 1))" by (rule ex_sheet_header)
  have 2: "build_columns ex_sheet 1 = Inr [col_nr, col_name, ascii ''Fizika'', ascii ''Dalykas_2'']"
    by (rule ex_sheet_columns)
  have 3: "find_data_start lt_db ex_sheet (Suc 1) = 2" unfolding Suc_1 by (rule ex_sheet_data_start)
  have 4: "min (length [col_nr, col_name, ascii ''Fizika'', ascii ''Dalykas_2'']) (ncols ex_sheet) =
      length [col_nr, col_name, ascii ''Fizika'', ascii ''Dalykas_2'']"
    by (simp add: ex_sheet_shape)
  have l: "length [col_nr, col_name, ascii ''Fizika'', ascii ''Dalykas_2''] = 4" by simp
  have 5: "dropna_all \<lparr> columns = [col_nr, col_name, ascii ''Fizika'', ascii ''Dalykas_2''],
      body = iloc ex_sheet 2 (length [col_nr, col_name, ascii ''Fizika'', ascii ''Dalykas_2'']) \<rparr> = ex_parsed"
    unfolding l ex_sheet_iloc by (simp add: dropna_all_def ex_parsed_def)
  have 7: "getitem_mask ex_parsed
      (map notna [Str (ascii ''Jonaitis/Jonas''), Str (ascii '' ''), Str summary_name]) = ex_parsed"
    by (simp add: getitem_mask_def ex_parsed_def)
  have 8: "keep_cols_loop ex_parsed (columns ex_parsed) [col_nr, col_name] =
      Inr [col_nr, col_name, ascii ''Fizika'', ascii ''Dalykas_2'']"
    using ex_labels4 by (simp add: ex_parsed_columns ex_parsed_getitem)
  from parse_steps [OF 1 2 3 4 5 ex_parsed_getitem(1) 7 8 ex_parsed_id]
  show ?thesis by (simp add: ex_sheet_meta)
qed

lemma ex_level_columns:
  "\<not> level_column lt_db col_nr" "\<not> level_column lt_db col_name"
  "\<not> level_column lt_db (ascii ''Fizika'')" "\<not> level_column lt_db (ascii ''Dalykas_2'')"
  "level_column lt_db (ascii ''Pasiekim'' @ [0x173] @ ascii '' lygis'')"
  by (simp_all add: level_column_def ACH_LVL_COL_RE_def re_defs re_w_def col_nr_def col_name_def lt_eval)

lemma ex_summary_rows:
  "\<not> summary_row lt_db (Str (ascii ''Jonaitis/Jonas''))" "\<not> summary_row lt_db (Str (ascii '' ''))"
  "summary_row lt_db (Str summary_name)"
  by (simp_all add: summary_row_def strip_accents_lower_def summary_name_def lt_nfd1_def lt_eval)

lemma ex_parsed_final: "student_table lt_db ex_parsed = Inr ex_final"
proof -
  have f: "filter (\<lambda>c. re_search lt_db (ACH_LVL_COL_RE lt_db) c = None) (columns ex_parsed) =
      [col_nr, col_name, ascii ''Fizika'', ascii ''Dalykas_2'']"
    using ex_level_columns(1-4) by (simp add: ex_parsed_columns not_level_column)
  have m: "getitem_mask ex_parsed [True, True, False] = ex_final"
    by (simp add: getitem_mask_def ex_parsed_def ex_final_def)
  show ?thesis
    using ex_summary_rows
    by (simp add: student_table_def f ex_parsed_id ex_parsed_getitem summary_row_def m)
qed

lemma ex_final_documents:
  "map (document lt_db arg_student_name ex_final [] [] [])
     (filter (\<lambda>row. has_document lt_db (display_name ex_final row)) (body ex_final)) =
   [(ascii ''Jonaitis-Jonas.pdf'', ascii ''Jonaitis/Jonas'')]"
proof -
  have p: "label_position ex_final col_name = Inr 1"
    by (simp add: label_position_def ex_positions [OF ex_final_columns])
  have b: "body ex_final =
      [[Obj (ascii ''1''), Str (ascii ''Jonaitis/Jonas''), Obj (ascii ''8''), NA],
       [Obj (ascii ''2''), Str (ascii '' ''), Obj (ascii ''9''), NA]]"
    by (simp add: ex_final_def)
  have n: "display_name ex_final [Obj (ascii ''1''), Str (ascii ''Jonaitis/Jonas''), Obj (ascii ''8''), NA]
        = ascii ''Jonaitis/Jonas''"
    "display_name ex_final [Obj (ascii ''2''), Str (ascii '' ''), Obj (ascii ''9''), NA] = []"
    by (simp_all add: display_name_def p str_defs)
  have h: "has_document lt_db (ascii ''Jonaitis/Jonas'')" "\<not> has_document lt_db []"
    using ex_summary_rows(1)
    by (simp_all add: has_document_def summary_row_def lt_db_simps lt_lower1_def ascii_def)
  have s: "concat (map safe_char (ascii ''Jonaitis/Jonas'')) @ ascii ''.pdf'' = ascii ''Jonaitis-Jonas.pdf''"
    by (simp add: safe_char_def ascii_def)
  show ?thesis by (simp add: b n h document_def s)
qed

section \<open>The claims\<close>

text \<open>
  Claim C1. On a grid with at least one column, \<open>find_header_rows\<close> looks at the first
  min(40, rows) rows and returns the first row \<open>h\<close> whose column-0 text, trimmed and
  lower-cased, starts with \<open>eil\<close> and whose column-1 text (empty when the grid has fewer
  than two columns) contains \<open>pavard\<close> or \<open>vard\<close>, together with \<open>h + 1\<close> as the subjects
  row. If no such row exists, \<open>parse_excel_to_df\<close> raises its error and the action ends
  in the error handler: no table and no archive. (A grid without columns ends in the
  handler as well.)
\<close>

theorem find_header_rows_spec:
  "(0 < ncols df \<longrightarrow>
      find_header_rows U df =
        Inr (map_option (\<lambda>h. (h, h + 1))
              (List.find (spec_header_row U df) [0 ..< min 40 (nrows df)]))) \<and>
   (0 < ncols df \<and> List.find (spec_header_row U df) [0 ..< min 40 (nrows df)] = None \<longrightarrow>
      parse_excel_to_df U df = Inl HeaderNotFound \<and>
      main U render df akadem_metai_input override_school override_class button = Failed HeaderNotFound) \<and>
   (ncols df = 0 \<longrightarrow>
      (\<exists>e. parse_excel_to_df U df = Inl e \<and>
        main U render df akadem_metai_input override_school override_class button = Failed e))"
proof (intro conjI impI)
  assume "0 < ncols df"
  then show "find_header_rows U df =
        Inr (map_option (\<lambda>h. (h, h + 1))
              (List.find (spec_header_row U df) [0 ..< min 40 (nrows df)]))"
    by (rule find_header_rows_eq)
next
  assume a: "0 < ncols df \<and> List.find (spec_header_row U df) [0 ..< min 40 (nrows df)] = None"
  then have "find_header_rows U df = Inr None" by (simp add: find_header_rows_eq)
  then show "parse_excel_to_df U df = Inl HeaderNotFound" by (rule parse_no_header)
  then show "main U render df akadem_metai_input override_school override_class button = Failed HeaderNotFound"
    by (rule main_parse_error)
next
  assume z: "ncols df = 0"
  show "\<exists>e. parse_excel_to_df U df = Inl e \<and>
        main U render df akadem_metai_input override_school override_class button = Failed e"
  proof (cases "nrows df = 0")
    case True
    with z have "find_header_rows U df = Inr None" by (simp add: find_header_rows_no_columns)
    then have "parse_excel_to_df U df = Inl HeaderNotFound" by (rule parse_no_header)
    then show ?thesis using main_parse_error by blast
  next
    case False
    with z have "find_header_rows U df = Inl IndexError" by (simp add: find_header_rows_no_columns)
    then have "parse_excel_to_df U df = Inl IndexError" by (rule parse_header_error)
    then show ?thesis using main_parse_error by blast
  qed
qed

lemma ex_header_rows:
  "\<not> spec_header_row lt_db ex_header_grid 0" "\<not> spec_header_row lt_db ex_header_grid (Suc 0)"
  "spec_header_row lt_db ex_header_grid 2"
  by (simp_all add: spec_header_row_def ex_header_grid_def of_rows_def cell_text_def lt_eval)

lemma ex_no_header_rows:
  "\<not> spec_header_row lt_db ex_no_header_grid 0" "\<not> spec_header_row lt_db ex_no_header_grid (Suc 0)"
  by (simp_all add: spec_header_row_def ex_no_header_grid_def of_rows_def cell_text_def lt_eval)

theorem find_header_rows_spec_witness:
  "0 < ncols ex_header_grid \<and> find_header_rows lt_db ex_header_grid = Inr (Some (2, 3)) \<and>
   0 < ncols ex_no_header_grid \<and>
   List.find (spec_header_row lt_db ex_no_header_grid) [0 ..< min 40 (nrows ex_no_header_grid)] = None \<and>
   main lt_db (\<lambda>a. Inr []) ex_no_header_grid [] [] [] True = Failed HeaderNotFound"
proof -
  have c: "0 < ncols ex_header_grid" "0 < ncols ex_no_header_grid"
    by (simp_all add: ex_header_grid_def ex_no_header_grid_def of_rows_def)
  have u: "[0 ..< min 40 (nrows ex_header_grid)] = [0, 1, 2, 3]"
    "[0 ..< min 40 (nrows ex_no_header_grid)] = [0, 1]"
    by (simp_all add: ex_header_grid_def ex_no_header_grid_def of_rows_def upt_rec)
  have f: "List.find (spec_header_row lt_db ex_header_grid) [0 ..< min 40 (nrows ex_header_grid)] = Some 2"
    unfolding u by (simp add: ex_header_rows)
  have n: "List.find (spec_header_row lt_db ex_no_header_grid) [0 ..< min 40 (nrows ex_no_header_grid)] = None"
    unfolding u by (simp add: ex_no_header_rows)
  have 1: "find_header_rows lt_db ex_header_grid = Inr (Some (2, 3))"
    using find_header_rows_spec [of ex_header_grid lt_db] c(1) f by simp
  have 2: "main lt_db (\<lambda>a. Inr []) ex_no_header_grid [] [] [] True = Failed HeaderNotFound"
    using find_header_rows_spec [of ex_no_header_grid lt_db "\<lambda>a. Inr []" "[]" "[]" "[]" True] c(2) n
    by blast
  from c 1 n 2 show ?thesis by blast
qed

text \<open>
  Claim C2, as amended. When the table builder returns a table, every subject column of
  it has a value that is not missing in some row, and no name is missing. When the action
  has then dropped the achievement-level columns and the summary rows, no name is missing
  in the table that remains (a name of whitespace only is no missing value and stays); the
  subject columns of that table are those of the parsed table whose label does not match
  the pattern of the level columns, each without the cells of the dropped rows. A column
  whose only values stood in a summary row therefore remains and holds no value.
\<close>

theorem student_table_invariant:
  assumes "parse_excel_to_df U df0 = Inr (P, m)" and "student_table U P = Inr T"
  shows "list_all (column_has_value P) (subject_labels P) \<and> names_present P \<and>
    names_present T \<and>
    subject_labels T = filter (\<lambda>c. \<not> level_column U c) (subject_labels P) \<and>
    (\<forall>c\<in>set (subject_labels T). \<exists>vs. getitem P c = Inr vs \<and>
       getitem T c = Inr (map fst (filter snd (zip vs (summary_mask U P)))))"
proof -
  note inv = parse_invariant [OF assms(1)]
  note aux = student_table_invariant_aux [OF inv(4) inv(3) inv(2) assms(2)]
  from inv(1) inv(2) aux(1) aux(2) aux(4) show ?thesis by (intro conjI)
qed

theorem student_table_invariant_witness:
  "parse_excel_to_df lt_db ex_sheet =
     Inr (ex_parsed, \<lparr> meta_mokykla = [], meta_klase = [], meta_akadem_metai = [] \<rparr>) \<and>
   student_table lt_db ex_parsed = Inr ex_final \<and>
   list_all (column_has_value ex_parsed) (subject_labels ex_parsed) \<and> names_present ex_parsed \<and>
   names_present ex_final \<and>
   subject_labels ex_final = [ascii ''Fizika'', ascii ''Dalykas_2''] \<and>
   getitem ex_parsed (ascii ''Fizika'') = Inr [Obj (ascii ''8''), Obj (ascii ''9''), NA] \<and>
   summary_mask lt_db ex_parsed = [True, True, False] \<and>
   getitem ex_final (ascii ''Fizika'') = Inr [Obj (ascii ''8''), Obj (ascii ''9'')]"
proof -
  note th = student_table_invariant [OF ex_sheet_parse ex_parsed_final]
  from th have 1: "list_all (column_has_value ex_parsed) (subject_labels ex_parsed)"
    and 2: "names_present ex_parsed" and 3: "names_present ex_final" by blast+
  have 4: "subject_labels ex_final = [ascii ''Fizika'', ascii ''Dalykas_2'']"
    using ex_labels4 by (simp add: subject_labels_def ex_final_columns)
  have 5: "summary_mask lt_db ex_parsed = [True, True, False]"
    using ex_summary_rows by (simp add: summary_mask_def ex_parsed_getitem)
  from 1 2 3 4 5 ex_sheet_parse ex_parsed_final ex_parsed_getitem(2) ex_final_getitem(2)
  show ?thesis by (intro conjI)
qed

text \<open>The claim as stated fails: in the example sheet the only value of the column
  \<open>Dalykas_2\<close> stands in the summary row, the table builder keeps the column, and in the
  final table it holds no value.\<close>

theorem student_table_empty_column_counterexample:
  "parse_excel_to_df lt_db ex_sheet =
     Inr (ex_parsed, \<lparr> meta_mokykla = [], meta_klase = [], meta_akadem_metai = [] \<rparr>) \<and>
   student_table lt_db ex_parsed = Inr ex_final \<and>
   ascii ''Dalykas_2'' \<in> set (subject_labels ex_final) \<and>
   getitem ex_final (ascii ''Dalykas_2'') = Inr [NA, NA] \<and>
   \<not> column_has_value ex_final (ascii ''Dalykas_2'')"
proof -
  have 4: "ascii ''Dalykas_2'' \<in> set (subject_labels ex_final)"
    using ex_labels4 by (simp add: subject_labels_def ex_final_columns)
  have 5: "\<not> column_has_value ex_final (ascii ''Dalykas_2'')"
    by (simp add: column_has_value_def ex_final_getitem)
  from ex_sheet_parse ex_parsed_final 4 ex_final_getitem(3) 5 show ?thesis by (intro conjI)
qed

text \<open>
  Claim C3, as amended. For every table and every row of it, the filter loop of the action
  builds the dictionary \<open>cleaned_subjects\<close> when every subject label stands once among the
  columns (the two fixed labels may stand several times, their columns are skipped by
  name), and stops with an error when a subject label stands twice. A subject column is
  left out of the dictionary exactly when its cell is missing, or its trimmed text is empty
  or equals \<open>nan\<close> in any case, or the text starts with one of the four level names in any
  case and the name ends at a word boundary, or \<open>clean_value_remove_tags\<close> returns the empty
  string; the pairs that remain carry the cleaned value and keep the order of the columns.
  Each of the four level names alone is left out, so a column that holds only such values
  is in no row's dictionary, and so is a level name followed by a space and more text.
\<close>

theorem subjects_loop_spec:
  "subjects_loop U T row (columns T) [] =
     (if distinct (subject_labels T) then Inr (cleaned_subjects U T row) else Inl DuplicateLabel) \<and>
   map fst (cleaned_subjects U T row) =
     map (\<lambda>i. columns T ! i)
       (filter (\<lambda>i. columns T ! i \<noteq> col_nr \<and> columns T ! i \<noteq> col_name \<and> \<not> excluded U (row ! i))
          [0 ..< length (columns T)]) \<and>
   excluded lt_db (Str (ascii ''Slenkstinis'')) \<and> excluded lt_db (Str (ascii ''Patenkinamas'')) \<and>
   excluded lt_db (Str (ascii ''Pagrindinis'')) \<and>
   excluded lt_db (Str (ascii ''Auk'' @ [0x161] @ ascii ''tesnysis'')) \<and>
   excluded lt_db (Str (ascii '' PAGRINDINIS lygis''))"
proof (intro conjI)
  show "subjects_loop U T row (columns T) [] =
     (if distinct (subject_labels T) then Inr (cleaned_subjects U T row) else Inl DuplicateLabel)"
    by (simp add: subjects_loop_eq subjects_loop_error)
  show "map fst (cleaned_subjects U T row) =
     map (\<lambda>i. columns T ! i)
       (filter (\<lambda>i. columns T ! i \<noteq> col_nr \<and> columns T ! i \<noteq> col_name \<and> \<not> excluded U (row ! i))
          [0 ..< length (columns T)])"
    by (simp add: cleaned_subjects_def comp_def)
qed (rule ex_levels)+

theorem subjects_loop_spec_witness:
  "subjects_loop lt_db ex_table ex_row (columns ex_table) [] =
     Inr [(ascii ''Matematika'', ascii ''9''), (ascii ''Etika'', ascii ''Pagrindinis_lygis'')] \<and>
   subjects_loop lt_db ex_table_nr (Obj (ascii ''7'') # ex_row) (columns ex_table_nr) [] =
     Inr [(ascii ''Matematika'', ascii ''9''), (ascii ''Etika'', ascii ''Pagrindinis_lygis'')] \<and>
   subjects_loop lt_db ex_table_dup (ex_row @ [Obj (ascii ''9'')]) (columns ex_table_dup) [] =
     Inl DuplicateLabel"
  using subjects_loop_spec [of lt_db ex_table ex_row]
    subjects_loop_spec [of lt_db ex_table_nr "Obj (ascii ''7'') # ex_row"]
    subjects_loop_spec [of lt_db ex_table_dup "ex_row @ [Obj (ascii ''9'')]"] ex_cleaned
  by simp

text \<open>The claim as stated fails: the cell \<open>Pagrindinis_lygis\<close> starts with a level name
  and is kept, because the underscore behind the name is a word character.\<close>

theorem subjects_loop_level_prefix_counterexample:
  "starts_with_level lt_db (strip (str_of (ex_row ! 4))) \<and>
   subjects_loop lt_db ex_table ex_row (columns ex_table) [] =
     Inr [(ascii ''Matematika'', ascii ''9''), (ascii ''Etika'', ascii ''Pagrindinis_lygis'')]"
proof -
  have s: "starts_with_level lt_db (strip (str_of (ex_row ! 4)))"
    by (simp add: ex_row_def level_eval lt_eval)
  from subjects_loop_eq [OF ex_cleaned(1), of lt_db ex_row] ex_cleaned(2) s show ?thesis by simp
qed

text \<open>
  Claim C4. The claim says that \<open>clean_value_remove_tags\<close> collapses the separator
  punctuation that a deleted tag leaves behind. The function does not: \<open>EXTRA_SEP_RE\<close>,
  which the source introduces for this, is never applied, and separators are only trimmed
  from the two ends of the value. So \<open>8 (PR) 9\<close> comes back as \<open>8 () 9\<close>. The three
  examples of the claim hold (\<open>8 PR\<close> becomes \<open>8\<close>, the value U+012F \<open>sk (IN)\<close> loses its
  tag and the parentheses, \<open>PR\<close> alone becomes the empty string), and a tag inside a
  longer token stays (\<open>8PR\<close>).
\<close>

theorem clean_value_remove_tags_leaves_separators:
  "clean_value_remove_tags lt_db (ascii ''8 (PR) 9'') = ascii ''8 () 9'' \<and>
   clean_value_remove_tags lt_db (ascii ''8 PR'') = ascii ''8'' \<and>
   clean_value_remove_tags lt_db ([0x12F] @ ascii ''sk (IN)'') = [0x12F] @ ascii ''sk'' \<and>
   clean_value_remove_tags lt_db (ascii ''PR'') = [] \<and>
   clean_value_remove_tags lt_db (ascii ''8PR'') = ascii ''8PR''"
  by (simp add: clean_eval)

text \<open>
  Claim C5. The claim says that \<open>clean_value_remove_tags\<close> is idempotent. It is not: on
  \<open>PR\<close>, a tab and \<open>(a\<close> the first pass returns \<open>(a\<close> and the second \<open>a\<close>. The separators
  are trimmed from the ends while the tab is still in front of the parenthesis (the set of
  trimmed characters has the space and no other whitespace character), and the tab is
  trimmed afterwards. With a space for the tab the first pass returns \<open>a\<close>.
\<close>

theorem clean_value_remove_tags_not_idempotent:
  "clean_value_remove_tags lt_db (ascii ''PR'' @ [9] @ ascii ''(a'') = ascii ''(a'' \<and>
   clean_value_remove_tags lt_db (clean_value_remove_tags lt_db (ascii ''PR'' @ [9] @ ascii ''(a''))
     = ascii ''a'' \<and>
   clean_value_remove_tags lt_db (ascii ''PR (a'') = ascii ''a''"
proof -
  have 1: "clean_value_remove_tags lt_db (ascii ''PR'' @ [9] @ ascii ''(a'') = ascii ''(a''"
    by (simp add: clean_eval)
  have 2: "clean_value_remove_tags lt_db (ascii ''(a'') = ascii ''a''"
    by (simp add: clean_eval)
  have 3: "clean_value_remove_tags lt_db (ascii ''PR (a'') = ascii ''a''"
    by (simp add: clean_eval)
  show ?thesis by (simp only: 1 2 3)
qed

text \<open>
  Claim C6, as amended. \<open>try_extract_school_and_class\<close> scans the cells of the first
  min(12, rows) by min(12, columns) window row by row. A string cell sets the institution
  to the trimmed text behind its first colon exactly when its trimmed text contains a colon
  and its lower-cased text contains \<open>mokykla\<close> anywhere, before or behind the colon; it sets
  the class label likewise when the text contains \<open>klas\<close> followed by U+0117 or by \<open>e\<close>. The
  last such cell in scan order determines each field, and a field with no such cell is the
  empty string. The cells \<open>Mokykla: Vilniaus 5-oji vidurin.\<close> and \<open>Klas.: IVa\<close> give the
  institution and the class label of the example.
\<close>

theorem try_extract_school_and_class_spec:
  "try_extract_school_and_class U df =
     (last_match (school_text U) after_colon [] (window_texts df),
      last_match (class_text U) after_colon [] (window_texts df)) \<and>
   window df = concat (map (\<lambda>r. map (\<lambda>c. (r, c)) [0 ..< min 12 (ncols df)]) [0 ..< min 12 (nrows df)]) \<and>
   (58 \<notin> set b \<longrightarrow> after_colon (b @ 58 # a) = strip a) \<and>
   try_extract_school_and_class lt_db
     (of_rows [[Str (ascii ''Mokykla: Vilniaus 5-oji vidurin'' @ [0x117]), Str (ascii ''Klas'' @ [0x117] @ ascii '': IVa'')]])
     = (ascii ''Vilniaus 5-oji vidurin'' @ [0x117], ascii ''IVa'')"
proof (intro conjI impI)
  show g: "try_extract_school_and_class U df =
     (last_match (school_text U) after_colon [] (window_texts df),
      last_match (class_text U) after_colon [] (window_texts df))" for U df
    by (simp add: try_extract_school_and_class_def school_class_foldl window_texts_def)
  show "window df = concat (map (\<lambda>r. map (\<lambda>c. (r, c)) [0 ..< min 12 (ncols df)]) [0 ..< min 12 (nrows df)])"
    by (rule window_def)
  show "after_colon (b @ 58 # a) = strip a" if "58 \<notin> set b"
    by (rule after_colon_split [OF that])
  show "try_extract_school_and_class lt_db
     (of_rows [[Str (ascii ''Mokykla: Vilniaus 5-oji vidurin'' @ [0x117]), Str (ascii ''Klas'' @ [0x117] @ ascii '': IVa'')]])
     = (ascii ''Vilniaus 5-oji vidurin'' @ [0x117], ascii ''IVa'')"
    unfolding g
    by (simp add: window_texts_def window_def of_rows_def last_match_def school_text_def class_text_def
        after_colon_def lt_eval upt_rec)
qed

theorem try_extract_school_and_class_spec_witness:
  "58 \<notin> set (ascii ''Mokykla'') \<and>
   after_colon (ascii ''Mokykla'' @ 58 # ascii '' Vilniaus '') = ascii ''Vilniaus''"
proof -
  have 1: "58 \<notin> set (ascii ''Mokykla'')" by (simp add: ascii_def)
  have 2: "strip (ascii '' Vilniaus '') = ascii ''Vilniaus''" by (simp add: str_defs)
  from try_extract_school_and_class_spec [of _ _ "ascii ''Mokykla''" "ascii '' Vilniaus ''"] 1 2
  show ?thesis by simp
qed

text \<open>The claim as stated fails: in \<open>Pastaba: kita mokykla\<close> the text before the colon does
  not contain \<open>mokykla\<close>, and the cell sets the institution all the same.\<close>

theorem try_extract_school_and_class_counterexample:
  "\<not> contains (ascii ''mokykla'') (str_lower lt_db (before_colon (ascii ''Pastaba: kita mokykla''))) \<and>
   try_extract_school_and_class lt_db (of_rows [[Str (ascii ''Pastaba: kita mokykla'')]])
     = (ascii ''kita mokykla'', [])"
  by (simp add: try_extract_school_and_class_def window_def of_rows_def school_class_step_def
      before_colon_def lt_eval upt_rec)

text \<open>
  Claim C7, as amended. \<open>try_extract_academic_year\<close> scans the string cells of the first
  min(12, rows) by min(12, columns) window row by row. The first cell whose trimmed text
  contains a year range (\<open>20\<close> and two digits, a hyphen or an en dash with optional
  whitespace around it, \<open>20\<close> and two digits) ends the scan, and the result is the two
  years joined by an en dash: with \<open>2024-2025\<close> before \<open>2023-2024\<close> it is the former, also
  when the former stands in the second column of the first row and the latter in the first
  column of the second row. If no cell of the window contains a year range, the result is
  the trimmed text, not the full text, of the last cell whose lower-cased text contains
  \<open>mokslo metai\<close>, and the empty string if there is none. A cell in the thirteenth column
  is not read.
\<close>

theorem try_extract_academic_year_spec:
  "try_extract_academic_year U df = academic_year U [] (window_texts df) \<and>
   window df = concat (map (\<lambda>r. map (\<lambda>c. (r, c)) [0 ..< min 12 (ncols df)]) [0 ..< min 12 (nrows df)]) \<and>
   try_extract_academic_year lt_db (of_rows [[Str (ascii ''2024-2025''), Str (ascii ''2023-2024'')]])
     = ascii ''2024'' @ [0x2013] @ ascii ''2025'' \<and>
   try_extract_academic_year lt_db
     (of_rows [[NA, Str (ascii ''2024-2025'')], [Str (ascii ''2023-2024''), NA]])
     = ascii ''2024'' @ [0x2013] @ ascii ''2025'' \<and>
   try_extract_academic_year lt_db (of_rows [[NA, Str (ascii ''x 2024 '' @ [0x2013] @ ascii '' 2025 m.'')]])
     = ascii ''2024'' @ [0x2013] @ ascii ''2025'' \<and>
   try_extract_academic_year lt_db
     (of_rows [[Str (ascii '' Mokslo metai: 2024 ''), NA], [Obj (ascii ''2024''), Str (ascii ''mokslo metai '')]])
     = ascii ''mokslo metai'' \<and>
   try_extract_academic_year lt_db (of_rows [[Str (ascii ''Fizika''), NA]]) = [] \<and>
   try_extract_academic_year lt_db
     (of_rows [[NA, NA, NA, NA, NA, NA, NA, NA, NA, NA, NA, NA, Str (ascii ''2024-2025'')]]) = []"
proof (intro conjI)
  show g: "try_extract_academic_year U df = academic_year U [] (window_texts df)" for U df
    by (simp add: try_extract_academic_year_def year_loop_eq window_texts_def)
  show "window df = concat (map (\<lambda>r. map (\<lambda>c. (r, c)) [0 ..< min 12 (ncols df)]) [0 ..< min 12 (nrows df)])"
    by (rule window_def)
  show "try_extract_academic_year lt_db (of_rows [[Str (ascii ''2024-2025''), Str (ascii ''2023-2024'')]])
     = ascii ''2024'' @ [0x2013] @ ascii ''2025''"
    unfolding g
    by (simp add: window_texts_def window_def of_rows_def academic_year_def year_at_def year4_def
        lt_eval upt_rec)
  show "try_extract_academic_year lt_db
     (of_rows [[NA, Str (ascii ''2024-2025'')], [Str (ascii ''2023-2024''), NA]])
     = ascii ''2024'' @ [0x2013] @ ascii ''2025''"
    unfolding g
    by (simp add: window_texts_def window_def of_rows_def academic_year_def year_at_def year4_def
        lt_eval upt_rec)
  show "try_extract_academic_year lt_db (of_rows [[NA, Str (ascii ''x 2024 '' @ [0x2013] @ ascii '' 2025 m.'')]])
     = ascii ''2024'' @ [0x2013] @ ascii ''2025''"
    unfolding g
    by (simp add: window_texts_def window_def of_rows_def academic_year_def year_at_def year4_def
        lt_eval upt_rec)
  show "try_extract_academic_year lt_db
     (of_rows [[Str (ascii '' Mokslo metai: 2024 ''), NA], [Obj (ascii ''2024''), Str (ascii ''mokslo metai '')]])
     = ascii ''mokslo metai''"
    unfolding g
    by (simp add: window_texts_def window_def of_rows_def academic_year_def year_at_def year4_def
        last_match_def lt_eval upt_rec)
  show "try_extract_academic_year lt_db (of_rows [[Str (ascii ''Fizika''), NA]]) = []"
    unfolding g
    by (simp add: window_texts_def window_def of_rows_def academic_year_def year_at_def year4_def
        last_match_def lt_eval upt_rec)
  show "try_extract_academic_year lt_db
     (of_rows [[NA, NA, NA, NA, NA, NA, NA, NA, NA, NA, NA, NA, Str (ascii ''2024-2025'')]]) = []"
    unfolding g
    by (simp add: window_texts_def window_def of_rows_def academic_year_def year_at_def year4_def
        last_match_def lt_eval upt_rec)
qed

text \<open>The claim as stated fails: of the cell that holds \<open>Mokslo metai\<close> between two spaces
  the scanner returns the trimmed text, which is not the full text of the cell.\<close>

theorem try_extract_academic_year_full_text_counterexample:
  "try_extract_academic_year lt_db (of_rows [[Str (ascii '' Mokslo metai '')]]) = ascii ''Mokslo metai'' \<and>
   try_extract_academic_year lt_db (of_rows [[Str (ascii '' Mokslo metai '')]]) \<noteq> ascii '' Mokslo metai ''"
proof -
  have 1: "try_extract_academic_year lt_db (of_rows [[Str (ascii '' Mokslo metai '')]]) = ascii ''Mokslo metai''"
    by (simp add: try_extract_academic_year_def year_loop_eq window_def of_rows_def academic_year_def
        year_at_def year4_def last_match_def lt_eval upt_rec)
  have 2: "ascii ''Mokslo metai'' \<noteq> ascii '' Mokslo metai ''" by (simp add: ascii_def)
  show ?thesis unfolding 1 using 2 by simp
qed

theorem try_extract_academic_year_spec_witness:
  "try_extract_academic_year lt_db (of_rows [[NA, Str (ascii ''x 2024 - 2025 m.'')]]) =
     ascii ''2024'' @ [0x2013] @ ascii ''2025''"
proof -
  have "academic_year lt_db [] (window_texts (of_rows [[NA, Str (ascii ''x 2024 - 2025 m.'')]])) =
     ascii ''2024'' @ [0x2013] @ ascii ''2025''"
    by (simp add: window_texts_def window_def of_rows_def academic_year_def year_at_def year4_def
        lt_eval upt_rec)
  with try_extract_academic_year_spec [of lt_db "of_rows [[NA, Str (ascii ''x 2024 - 2025 m.'')]]"]
  show ?thesis by simp
qed

text \<open>
  Claim C8, as amended. When the subjects row lies in the grid, the column names are the
  two fixed names followed, for every further column index \<open>j\<close>, by the trimmed text of
  the cell at (subjects row, \<open>j\<close>), or by the placeholder with the index \<open>j - 1\<close> when that
  text is empty. Placeholders of different columns differ. The names are not made unique:
  they are distinct when the non-blank subject cells are pairwise different and none of
  them equals a fixed name or a placeholder. (When the header is the last row of a grid of
  more than two columns, reading the subjects row raises \<open>IndexError\<close>.)
\<close>

theorem build_columns_spec:
  "(subjects_row < nrows df \<longrightarrow>
      build_columns df subjects_row =
        Inr (col_nr # col_name # map (column_name df subjects_row) [2 ..< ncols df])) \<and>
   (\<not> subjects_row < nrows df \<and> 2 < ncols df \<longrightarrow> build_columns df subjects_row = Inl IndexError) \<and>
   (1 \<le> j \<and> 1 \<le> k \<and> j \<noteq> k \<longrightarrow> placeholder j \<noteq> placeholder k) \<and>
   (distinct (filter (\<lambda>t. t \<noteq> []) (map (\<lambda>j. cell_text (cells df subjects_row j)) [2 ..< ncols df])) \<and>
    (\<forall>j. 2 \<le> j \<and> j < ncols df \<longrightarrow>
       cell_text (cells df subjects_row j) \<notin> {col_nr, col_name} \<union> range placeholder) \<longrightarrow>
    distinct (col_nr # col_name # map (column_name df subjects_row) [2 ..< ncols df]))"
proof (intro conjI impI)
  assume "subjects_row < nrows df"
  then show "build_columns df subjects_row =
        Inr (col_nr # col_name # map (column_name df subjects_row) [2 ..< ncols df])"
    by (simp add: build_columns_def columns_loop_eq)
next
  assume a: "\<not> subjects_row < nrows df \<and> 2 < ncols df"
  then have "[2 ..< ncols df] \<noteq> []" by simp
  with a show "build_columns df subjects_row = Inl IndexError"
    unfolding build_columns_def by (intro columns_loop_error) simp_all
next
  assume "1 \<le> j \<and> 1 \<le> k \<and> j \<noteq> k"
  then show "placeholder j \<noteq> placeholder k" using placeholder_inj [of j k] by auto
next
  assume "distinct (filter (\<lambda>t. t \<noteq> []) (map (\<lambda>j. cell_text (cells df subjects_row j)) [2 ..< ncols df])) \<and>
    (\<forall>j. 2 \<le> j \<and> j < ncols df \<longrightarrow>
       cell_text (cells df subjects_row j) \<notin> {col_nr, col_name} \<union> range placeholder)"
  then show "distinct (col_nr # col_name # map (column_name df subjects_row) [2 ..< ncols df])"
    by (intro distinct_column_names) simp_all
qed

theorem build_columns_spec_witness:
  "1 < nrows ex_grid \<and>
   build_columns ex_grid 1 = Inr [col_nr, col_name, ascii ''Fizika'', ascii ''Dalykas_2''] \<and>
   distinct [col_nr, col_name, ascii ''Fizika'', ascii ''Dalykas_2'']"
proof -
  have r: "1 < nrows ex_grid" by (simp add: ex_grid_shape)
  have t: "map (\<lambda>j. cell_text (cells ex_grid 1 j)) [2 ..< ncols ex_grid] = [ascii ''Fizika'', []]"
    by (simp add: ex_grid_shape upt_2_4 cell_text_def ex_grid_cells str_defs)
  have d: "distinct (filter (\<lambda>t. t \<noteq> []) (map (\<lambda>j. cell_text (cells ex_grid 1 j)) [2 ..< ncols ex_grid]))"
    unfolding t by (simp add: ascii_def)
  have p: "ascii ''Fizika'' \<noteq> placeholder k" "[] \<noteq> placeholder k" for k
    by (simp_all add: placeholder_def ascii_def)
  have f: "\<forall>j. 2 \<le> j \<and> j < ncols ex_grid \<longrightarrow>
       cell_text (cells ex_grid 1 j) \<notin> {col_nr, col_name} \<union> range placeholder"
  proof (intro allI impI)
    fix j assume "2 \<le> j \<and> j < ncols ex_grid"
    then have "j = 2 \<or> j = 3" by (auto simp: ex_grid_shape)
    then show "cell_text (cells ex_grid 1 j) \<notin> {col_nr, col_name} \<union> range placeholder"
      using p by (auto simp: cell_text_def ex_grid_cells str_defs col_nr_def col_name_def)
  qed
  note th = build_columns_spec [where subjects_row = 1 and df = ex_grid and j = 1 and k = 1]
  have b: "build_columns ex_grid 1 =
      Inr (col_nr # col_name # map (column_name ex_grid 1) [2 ..< ncols ex_grid])"
    using th r by blast
  have dd: "distinct (col_nr # col_name # map (column_name ex_grid 1) [2 ..< ncols ex_grid])"
    using th d f by blast
  from r b dd show ?thesis by (simp only: ex_grid_column_names simp_thms)
qed

text \<open>The claim as stated fails: two subject cells with the same text give the same
  column name twice.\<close>

theorem build_columns_unique_counterexample:
  "build_columns ex_dup_grid 1 = Inr [col_nr, col_name, ascii ''Fizika'', ascii ''Fizika''] \<and>
   \<not> distinct [col_nr, col_name, ascii ''Fizika'', ascii ''Fizika'']"
  by (simp add: build_columns_def ex_dup_grid_def of_rows_def upt_2_4 subject_name_def iat_def str_defs)

text \<open>
  Claim C9, as amended. For every class label whose trimmed text is the Roman numeral IV,
  optionally followed by a single letter of the Latin alphabet A to Z or one of the nine
  Lithuanian letters with a diacritic (in either case, with optional whitespace before the
  letter, as in \<open>IV\<close>, \<open>IVa\<close>, \<open>iv B\<close>, and \<open>IV\<close> with the letter U+017E), or that contains
  \<open>12\<close> as a token with no word character before or behind it (\<open>class 12\<close> does, \<open>12a\<close>
  does not), \<open>is_final_class\<close> returns true; for a value that is not a string, for the
  empty string, for \<open>III\<close> and for \<open>11\<close> it returns false. The general statement holds for
  every Unicode database that is right about the ASCII characters.
\<close>

theorem is_final_class_spec:
  assumes U: "db_ascii U"
  shows "(roman_iv_label U (strip s) \<or> has_token U (ascii ''12'') False (strip s) \<longrightarrow> is_final_class U (Str s)) \<and>
    is_final_class U (Str (ascii ''IV'')) \<and> is_final_class U (Str (ascii ''IVa'')) \<and>
    is_final_class U (Str (ascii ''iv B'')) \<and> is_final_class U (Str (ascii ''class 12'')) \<and>
    \<not> is_final_class U (Str (ascii ''12a'')) \<and> \<not> is_final_class U (Str (ascii ''III'')) \<and>
    \<not> is_final_class U (Str (ascii ''11'')) \<and> \<not> is_final_class U (Str []) \<and>
    \<not> is_final_class U NA \<and> \<not> is_final_class U (Obj x) \<and>
    roman_iv_label lt_db (ascii ''IV'' @ [0x17E]) \<and> is_final_class lt_db (Str (ascii ''IV'' @ [0x17E])) \<and>
    roman_iv_label lt_db (ascii ''iv '' @ [0x160]) \<and> is_final_class lt_db (Str (ascii ''iv '' @ [0x160])) \<and>
    \<not> roman_iv_label lt_db (ascii ''IV'' @ [0xE9]) \<and> \<not> roman_iv_label lt_db (ascii ''IVab'')"
proof -
  have w: "isword U 49" "isword U 50" by (simp_all add: db_ascii_isword [OF U])
  have gen: "is_final_class U (Str t)"
    if "roman_iv_label U (strip t) \<or> has_token U (ascii ''12'') False (strip t)" for t
  proof -
    from that show ?thesis
    proof
      assume "roman_iv_label U (strip t)"
      from rmatch_FINAL_CLASS [OF this] show ?thesis
        by (simp add: is_final_class_def re_match_def)
    next
      assume "has_token U (ascii ''12'') False (strip t)"
      then have "has_token U [49, 50] (word_before U None) (strip t)"
        by (simp add: ascii_def word_before_def)
      from has_token_12_search [OF w this] show ?thesis
        by (simp add: is_final_class_def re_search_def Let_def)
    qed
  qed
  have lt: "is_final_class lt_db (Str t)" if "roman_iv_label lt_db (strip t)" for t
    using rmatch_FINAL_CLASS [OF that] by (simp add: is_final_class_def re_match_def)
  have s: "strip (ascii ''IV'' @ [0x17E]) = ascii ''IV'' @ [0x17E]"
    "strip (ascii ''iv '' @ [0x160]) = ascii ''iv '' @ [0x160]"
    by (simp_all add: str_defs)
  have r: "roman_iv_label lt_db (ascii ''IV'' @ [0x17E])" "roman_iv_label lt_db (ascii ''iv '' @ [0x160])"
    "\<not> roman_iv_label lt_db (ascii ''IV'' @ [0xE9])" "\<not> roman_iv_label lt_db (ascii ''IVab'')"
    by (simp_all add: roman_iv_label_def suffix_letters_def lt_eval)
  show ?thesis
    using gen [of s] gen [of "ascii ''IV''"] gen [of "ascii ''IVa''"] gen [of "ascii ''iv B''"]
      gen [of "ascii ''class 12''"] ex_true [OF U] ex_false [OF U]
      lt [of "ascii ''IV'' @ [0x17E]"] lt [of "ascii ''iv '' @ [0x160]"] r s
    by (simp add: is_final_class_def)
qed

theorem is_final_class_spec_witness:
  "db_ascii lt_db \<and> roman_iv_label lt_db (strip (ascii '' IVa '')) \<and>
   is_final_class lt_db (Str (ascii '' IVa ''))"
proof -
  have r: "roman_iv_label lt_db (strip (ascii '' IVa ''))"
    by (simp add: roman_iv_label_def str_defs suffix_letters_def ascii_eval [OF db_ascii_lt_db] ascii_lower_def)
  with is_final_class_spec [OF db_ascii_lt_db, of "ascii '' IVa ''"] db_ascii_lt_db
  show ?thesis by blast
qed

text \<open>The claim as stated fails: U+00E9, the letter e with an acute accent, is a letter
  (alphanumeric and no digit), and the label \<open>IV\<close> followed by it is not of the final
  year.\<close>

theorem is_final_class_letter_counterexample:
  "isalnum lt_db 0xE9 \<and> \<not> isdecimal lt_db 0xE9 \<and> \<not> is_final_class lt_db (Str (ascii ''IV'' @ [0xE9]))"
  by (simp add: is_final_class_def FINAL_CLASS_RE_def HAS_12_RE_def re_defs suffix_letters_class [symmetric]
      suffix_letters_def lt_eval)

text \<open>
  Claim C10, as amended. When the table builder and the two filters of the action have
  left a table with at least one row, the button is pressed and the PDF library raises
  nothing, the archive holds one document for every remaining row whose trimmed name is
  not empty, is not \<open>nan\<close> in any case and is not the summary phrase, in the order of the
  rows, and no document for the other rows. A document is named by the trimmed name of the
  student, in which \<open>?\<close> and the double quote are removed, \<open><\<close> and \<open>>\<close> become \<open>(\<close> and
  \<open>)\<close>, and the slash, the backslash, the colon, the asterisk and the bar become \<open>-\<close>,
  followed by \<open>.pdf\<close>; so no name of a document contains one of the nine unsafe characters.
\<close>

theorem archive_spec:
  assumes "parse_excel_to_df U df0 = Inr (P, m)" and "student_table U P = Inr T" and "body T \<noteq> []"
  shows "main U (\<lambda>a. Inr (pdf a)) df0 metai_input school_input klase_input True =
      Download (map (document U pdf T (py_or school_input (meta_mokykla m))
                       (py_or klase_input (meta_klase m)) (py_or metai_input (meta_akadem_metai m)))
                  (filter (\<lambda>row. has_document U (display_name T row)) (body T))) \<and>
    safe_name_of s = concat (map safe_char s) \<and>
    set (safe_name_of s) \<inter> set unsafe_chars = {} \<and>
    safe_name_of [47, 92, 58, 42, 63, 34, 60, 62, 124] = ascii ''----()-''"
proof (intro conjI)
  show "main U (\<lambda>a. Inr (pdf a)) df0 metai_input school_input klase_input True =
      Download (map (document U pdf T (py_or school_input (meta_mokykla m))
                       (py_or klase_input (meta_klase m)) (py_or metai_input (meta_akadem_metai m)))
                  (filter (\<lambda>row. has_document U (display_name T row)) (body T)))"
    by (rule main_Download [OF assms])
  show "safe_name_of s = concat (map safe_char s)" by (rule safe_name_of_eq)
  show "set (safe_name_of s) \<inter> set unsafe_chars = {}" by (rule safe_name_of_safe)
  show "safe_name_of [47, 92, 58, 42, 63, 34, 60, 62, 124] = ascii ''----()-''"
    by (simp add: safe_name_of_eq safe_char_def ascii_def)
qed

theorem archive_spec_witness:
  "parse_excel_to_df lt_db ex_sheet =
     Inr (ex_parsed, \<lparr> meta_mokykla = [], meta_klase = [], meta_akadem_metai = [] \<rparr>) \<and>
   student_table lt_db ex_parsed = Inr ex_final \<and> body ex_final \<noteq> [] \<and>
   main lt_db (\<lambda>a. Inr (arg_student_name a)) ex_sheet [] [] [] True =
     Download [(ascii ''Jonaitis-Jonas.pdf'', ascii ''Jonaitis/Jonas'')]"
proof -
  have b: "body ex_final \<noteq> []" by (simp add: ex_final_def)
  from archive_spec [OF ex_sheet_parse ex_parsed_final b, of arg_student_name "[]" "[]" "[]"]
  have "main lt_db (\<lambda>a. Inr (arg_student_name a)) ex_sheet [] [] [] True =
     Download (map (document lt_db arg_student_name ex_final [] [] [])
                 (filter (\<lambda>row. has_document lt_db (display_name ex_final row)) (body ex_final)))"
    by (simp add: py_or_def)
  then have "main lt_db (\<lambda>a. Inr (arg_student_name a)) ex_sheet [] [] [] True =
     Download [(ascii ''Jonaitis-Jonas.pdf'', ascii ''Jonaitis/Jonas'')]"
    by (simp only: ex_final_documents)
  with ex_sheet_parse ex_parsed_final b show ?thesis by (intro conjI)
qed

text \<open>The claim as stated fails: two rows remain in the table of the example sheet, the
  name of the second is a single space, and the archive holds one document.\<close>

theorem archive_blank_name_counterexample:
  "parse_excel_to_df lt_db ex_sheet =
     Inr (ex_parsed, \<lparr> meta_mokykla = [], meta_klase = [], meta_akadem_metai = [] \<rparr>) \<and>
   student_table lt_db ex_parsed = Inr ex_final \<and> length (body ex_final) = 2 \<and>
   main lt_db (\<lambda>a. Inr (arg_student_name a)) ex_sheet [] [] [] True =
     Download [(ascii ''Jonaitis-Jonas.pdf'', ascii ''Jonaitis/Jonas'')]"
proof -
  have b: "body ex_final \<noteq> []" and l: "length (body ex_final) = 2" by (simp_all add: ex_final_def)
  from main_Download [OF ex_sheet_parse ex_parsed_final b, of arg_student_name "[]" "[]" "[]"]
  have "main lt_db (\<lambda>a. Inr (arg_student_name a)) ex_sheet [] [] [] True =
     Download (map (document lt_db arg_student_name ex_final [] [] [])
                 (filter (\<lambda>row. has_document lt_db (display_name ex_final row)) (body ex_final)))"
    by (simp add: py_or_def)
  then have "main lt_db (\<lambda>a. Inr (arg_student_name a)) ex_sheet [] [] [] True =
     Download [(ascii ''Jonaitis-Jonas.pdf'', ascii ''Jonaitis/Jonas'')]"
    by (simp only: ex_final_documents)
  with ex_sheet_parse ex_parsed_final l show ?thesis by (intro conjI)
qed

end
